theory Spec2Isabelle
  imports Complex_Main
begin

section \<open>Data model\<close>

text \<open>
  The notebook \<^verbatim>\<open>mamba.ipynb\<close> computes with JAX arrays of floats. Scalars are modelled
  as real numbers: rounding, infinities and NaN are outside the model, so every
  equation below is the exact-arithmetic content of the corresponding float
  computation. A one-dimensional array is a list of scalars, a two-dimensional
  array the list of its rows. JAX arrays are rectangular by construction, which
  the predicate \<open>mat\<close> records; the model is meant for rectangular arguments of
  matching dimensions (on others JAX raises a shape error or broadcasts).
\<close>

type_synonym vec = "real list"
type_synonym mat = "real list list"

definition mat :: "nat \<Rightarrow> nat \<Rightarrow> mat \<Rightarrow> bool" where
  "mat n m M \<longleftrightarrow> length M = n \<and> list_all (\<lambda>r. length r = m) M"

text \<open>The exceptions the modelled cells can raise.\<close>

datatype error = AssertionError | NameError | ValueError | TypeError | ZeroDivisionError

subsection \<open>Array primitives of the library\<close>

text \<open>\<^verbatim>\<open>np.eye(n)\<close>.\<close>

definition eye :: "nat \<Rightarrow> mat" where
  "eye n = map (\<lambda>i. map (\<lambda>j. if i = j then 1 else 0) [0..<n]) [0..<n]"

text \<open>\<^verbatim>\<open>np.zeros((n,))\<close>.\<close>

definition zeros :: "nat \<Rightarrow> vec" where
  "zeros n = replicate n 0"

text \<open>Inner product of two one-dimensional arrays of the same length.\<close>

definition dot :: "vec \<Rightarrow> vec \<Rightarrow> real" where
  "dot x y = sum_list (map2 (*) x y)"

text \<open>\<^verbatim>\<open>M @ x\<close> for a matrix and a one-dimensional array.\<close>

definition matvec :: "mat \<Rightarrow> vec \<Rightarrow> vec" where
  "matvec M x = map (\<lambda>r. dot r x) M"

definition ncols :: "mat \<Rightarrow> nat" where
  "ncols M = (case M of [] \<Rightarrow> 0 | r # _ \<Rightarrow> length r)"

definition col :: "mat \<Rightarrow> nat \<Rightarrow> vec" where
  "col M j = map (\<lambda>r. r ! j) M"

text \<open>\<^verbatim>\<open>A @ B\<close> for two matrices.\<close>

definition matmul :: "mat \<Rightarrow> mat \<Rightarrow> mat" where
  "matmul A B = map (\<lambda>r. map (\<lambda>j. dot r (col B j)) [0..<ncols B]) A"

text \<open>Elementwise \<^verbatim>\<open>x + y\<close>, \<^verbatim>\<open>A + B\<close>, \<^verbatim>\<open>A - B\<close> on arrays of equal shape.\<close>

definition vadd :: "vec \<Rightarrow> vec \<Rightarrow> vec" where
  "vadd x y = map2 (+) x y"

definition madd :: "mat \<Rightarrow> mat \<Rightarrow> mat" where
  "madd A B = map2 (map2 (+)) A B"

definition msub :: "mat \<Rightarrow> mat \<Rightarrow> mat" where
  "msub A B = map2 (map2 (-)) A B"

text \<open>\<^verbatim>\<open>c * M\<close> and \<^verbatim>\<open>M * c\<close> for a scalar \<open>c\<close>; \<^verbatim>\<open>-M\<close>.\<close>

definition smult :: "real \<Rightarrow> mat \<Rightarrow> mat" where
  "smult c M = map (map (\<lambda>x. c * x)) M"

definition mscale :: "mat \<Rightarrow> real \<Rightarrow> mat" where
  "mscale M c = map (map (\<lambda>x. x * c)) M"

definition mneg :: "mat \<Rightarrow> mat" where
  "mneg M = map (map uminus) M"

text \<open>
  \<^verbatim>\<open>jax.lax.scan(f, init, xs)\<close>: fold \<open>f\<close> over the leading axis, carrying a state
  and collecting one output per element.
\<close>

fun scan :: "('c \<Rightarrow> 'a \<Rightarrow> 'c \<times> 'b) \<Rightarrow> 'c \<Rightarrow> 'a list \<Rightarrow> 'c \<times> 'b list" where
  "scan f c [] = (c, [])"
| "scan f c (a # as) =
     (case f c a of (c', b) \<Rightarrow> (case scan f c' as of (c'', bs) \<Rightarrow> (c'', b # bs)))"

section \<open>The recurrence evaluator\<close>

text \<open>
  \<^verbatim>\<open>
  def scan_SSM(Ab, Bb, Cb, u, x0):
      def step(x_k_1, u_k):
          x_k = Ab @ x_k_1 + Bb @ u_k
          y_k = Cb @ x_k
          return x_k, y_k
      return jax.lax.scan(step, x0, u)
  \<close>
  The inner function \<^verbatim>\<open>step\<close> is \<open>scan_step\<close> here, with the matrices it closes
  over as arguments.
\<close>

definition scan_step :: "mat \<Rightarrow> mat \<Rightarrow> mat \<Rightarrow> vec \<Rightarrow> vec \<Rightarrow> vec \<times> vec" where
  "scan_step Ab Bb Cb x_k_1 u_k =
     (let x_k = vadd (matvec Ab x_k_1) (matvec Bb u_k);
          y_k = matvec Cb x_k
      in (x_k, y_k))"

definition scan_SSM :: "mat \<Rightarrow> mat \<Rightarrow> mat \<Rightarrow> vec list \<Rightarrow> vec \<Rightarrow> vec \<times> vec list" where
  "scan_SSM Ab Bb Cb u x0 = scan (scan_step Ab Bb Cb) x0 u"

text \<open>
  The state sequence as the specification words it: \<open>x\<^sub>0\<close> is the initial state and
  \<open>x\<^sub>k = Ab \<cdot> x\<^sub>k\<^sub>-\<^sub>1 + Bb \<cdot> u\<^sub>k\<close>, where \<open>u\<^sub>k\<close> is the \<open>k\<close>-th input counted from one.
\<close>

fun state_seq :: "mat \<Rightarrow> mat \<Rightarrow> vec list \<Rightarrow> vec \<Rightarrow> nat \<Rightarrow> vec" where
  "state_seq Ab Bb u x0 0 = x0"
| "state_seq Ab Bb u x0 (Suc k) =
     vadd (matvec Ab (state_seq Ab Bb u x0 k)) (matvec Bb (u ! k))"

section \<open>The discretizer\<close>

text \<open>
  \<^verbatim>\<open>
  def discretize(A, B, C, step):
      I = np.eye(A.shape[0])
      BL = inv(I - (step / 2.0) * A)
      Ab = BL @ (I + (step / 2.0) * A)
      Bb = (BL * step) @ B
      return Ab, Bb, C
  \<close>
  \<^verbatim>\<open>inv\<close> is \<^verbatim>\<open>jax.numpy.linalg.inv\<close>, a routine of the library and not of the
  notebook: it is the parameter \<open>inv_f\<close> of the model, and may return a matrix or
  raise. The cell itself has no check and no \<^verbatim>\<open>raise\<close>.
\<close>

definition discretize ::
  "(mat \<Rightarrow> error + mat) \<Rightarrow> mat \<Rightarrow> mat \<Rightarrow> mat \<Rightarrow> real \<Rightarrow> error + (mat \<times> mat \<times> mat)" where
  "discretize inv_f A B C step =
     (let I = eye (length A) in
      case inv_f (msub I (smult (step / 2) A)) of
        Inl e \<Rightarrow> Inl e
      | Inr BL \<Rightarrow>
          (let Ab = matmul BL (madd I (smult (step / 2) A));
               Bb = matmul (mscale BL step) B
           in Inr (Ab, Bb, C)))"

text \<open>
  What the library inverse is expected to deliver: \<open>X\<close> is the two-sided inverse
  of the square matrix \<open>M\<close>.
\<close>

definition is_inverse :: "mat \<Rightarrow> mat \<Rightarrow> bool" where
  "is_inverse M X \<longleftrightarrow>
     mat (length M) (length M) M \<and> mat (length M) (length M) X \<and>
     matmul X M = eye (length M) \<and> matmul M X = eye (length M)"

definition invertible :: "mat \<Rightarrow> bool" where
  "invertible M \<longleftrightarrow> (\<exists>X. is_inverse M X)"

text \<open>
  The contract of the library inverse on \<open>N \<times> N\<close> arrays, in exact arithmetic:
  it returns the inverse of every invertible matrix.
\<close>

definition inv_correct :: "nat \<Rightarrow> (mat \<Rightarrow> error + mat) \<Rightarrow> bool" where
  "inv_correct N inv_f \<longleftrightarrow> (\<forall>M X. length M = N \<and> is_inverse M X \<longrightarrow> inv_f M = Inr X)"

text \<open>
  The distance of the identity-limit property: the largest absolute value of an
  entry, so that \<open>norm_max (msub Ab I) < \<epsilon>\<close> says every entry of \<open>Ab\<close> is within
  \<open>\<epsilon>\<close> of the identity's.
\<close>

definition norm_max :: "mat \<Rightarrow> real" where
  "norm_max M = foldr (\<lambda>x m. max \<bar>x\<bar> m) (concat M) 0"

text \<open>
  An instance of the library inverse for the examples: on \<open>2 \<times> 2\<close> arrays, the
  adjugate over the determinant. It is used on invertible matrices only; what the
  library returns at a singular matrix is in \<open>inv_2x2_nf\<close> below. Arrays of other
  shapes are outside the instance.
\<close>

fun inv_2x2 :: "mat \<Rightarrow> error + mat" where
  "inv_2x2 [[a, b], [c, d]] = Inr (smult (1 / (a * d - b * c)) [[d, - b], [- c, a]])"
| "inv_2x2 M = Inl TypeError"

text \<open>
  The same cell with the non-finite floats in view. The real numbers have no NaN
  and no infinity, so an array that holds such an entry is \<open>None\<close> here and its
  entries are not modelled; the arguments \<open>A\<close>, \<open>B\<close>, \<open>C\<close> and \<open>step\<close> are finite.
  A product or a scaling of an array that holds a non-finite entry holds one
  again (a NaN or an infinity times any float, zero included, or plus any float,
  is not finite), which is \<open>map_option\<close> on the two lines that use \<open>BL\<close>. As in
  the cell, nothing is checked and nothing is raised.
\<close>

definition discretize_nf ::
  "(mat \<Rightarrow> error + mat option) \<Rightarrow> mat \<Rightarrow> mat \<Rightarrow> mat \<Rightarrow> real \<Rightarrow>
     error + (mat option \<times> mat option \<times> mat)" where
  "discretize_nf inv_x A B C step =
     (let I = eye (length A) in
      case inv_x (msub I (smult (step / 2) A)) of
        Inl e \<Rightarrow> Inl e
      | Inr BL \<Rightarrow>
          (let Ab = map_option (\<lambda>BL. matmul BL (madd I (smult (step / 2) A))) BL;
               Bb = map_option (\<lambda>BL. matmul (mscale BL step) B) BL
           in Inr (Ab, Bb, C)))"



text \<open>
  \<^verbatim>\<open>
  def example_mass(k, b, m):
      A = np.array([[0, 1], [-k / m, -b /m]])
      B = np.array([[0], [1.0 / m]])
      C = np.array([[1.0, 0]])
      return A, B, C
  \<close>
  The arguments are Python numbers, so a zero mass raises.
\<close>

definition example_mass :: "real \<Rightarrow> real \<Rightarrow> real \<Rightarrow> error + (mat \<times> mat \<times> mat)" where
  "example_mass k b m =
     (if m = 0 then Inl ZeroDivisionError
      else Inr ([[0, 1], [- k / m, - b / m]], [[0], [1 / m]], [[1, 0]]))"

text \<open>
  \<^verbatim>\<open>
  def run_SSM(A, B, C, u):
      L = u.shape[0]
      N = A.shape[0]
      Ab, Bb, Cb = discretize(A, B, C, step=1.0 / L)
      return scan_SSM(Ab, Bb, Cb, u[:, np.newaxis], np.zeros((N,)))[1]
  \<close>
  \<open>L\<close> is a Python integer, so \<^verbatim>\<open>1.0 / L\<close> raises for an empty input.
\<close>

definition run_SSM :: "(mat \<Rightarrow> error + mat) \<Rightarrow> mat \<Rightarrow> mat \<Rightarrow> mat \<Rightarrow> vec \<Rightarrow> error + vec list" where
  "run_SSM inv_f A B C u =
     (let L = length u; N = length A in
      if L = 0 then Inl ZeroDivisionError
      else case discretize inv_f A B C (1 / real L) of
        Inl e \<Rightarrow> Inl e
      | Inr (Ab, Bb, Cb) \<Rightarrow> Inr (snd (scan_SSM Ab Bb Cb (map (\<lambda>x. [x]) u) (zeros N))))"

section \<open>The kernel builder\<close>

text \<open>
  \<^verbatim>\<open>matrix_power(A, l)\<close> of the library: the \<open>l\<close>-fold product of \<open>A\<close>, the identity
  for \<open>l = 0\<close>.
\<close>

fun matrix_power :: "mat \<Rightarrow> nat \<Rightarrow> mat" where
  "matrix_power A 0 = eye (length A)"
| "matrix_power A (Suc l) = matmul (matrix_power A l) A"

text \<open>
  \<^verbatim>\<open>M.reshape()\<close>: the array as a scalar (shape \<^verbatim>\<open>()\<close>); an array that does not
  hold exactly one element cannot be reshaped so.
\<close>

definition reshape0 :: "mat \<Rightarrow> error + real" where
  "reshape0 M = (case concat M of [x] \<Rightarrow> Inr x | _ \<Rightarrow> Inl TypeError)"

text \<open>A list comprehension whose elements may raise: the first failure ends it.\<close>

fun collect :: "(error + 'a) list \<Rightarrow> error + 'a list" where
  "collect [] = Inr []"
| "collect (x # xs) =
     (case x of
        Inl e \<Rightarrow> Inl e
      | Inr v \<Rightarrow> (case collect xs of Inl e \<Rightarrow> Inl e | Inr vs \<Rightarrow> Inr (v # vs)))"

text \<open>
  \<^verbatim>\<open>
  def K_conv(Ab, Bb, Cb, L):
      return np.array(
          [(Cb @ matrix_power(Ab, l) @ Bb).reshape() for l in range(L)]
      )
  \<close>
\<close>

definition K_conv :: "mat \<Rightarrow> mat \<Rightarrow> mat \<Rightarrow> nat \<Rightarrow> error + vec" where
  "K_conv Ab Bb Cb L =
     collect (map (\<lambda>l. reshape0 (matmul (matmul Cb (matrix_power Ab l)) Bb)) [0..<L])"

text \<open>
  The kernel entry as the specification words it, the scalar \<open>Cb \<cdot> Ab\<^sup>l \<cdot> Bb\<close>,
  written out over the entries of the row \<open>Cb\<close>, the power and the column \<open>Bb\<close>.
\<close>

definition kernel_entry :: "mat \<Rightarrow> mat \<Rightarrow> mat \<Rightarrow> nat \<Rightarrow> real" where
  "kernel_entry Ab Bb Cb l =
     (\<Sum>i<length Ab. \<Sum>j<length Ab. Cb ! 0 ! i * matrix_power Ab l ! i ! j * Bb ! j ! 0)"

section \<open>The convolution evaluator\<close>

text \<open>
  The full discrete convolution of two coefficient sequences, computed as the
  product of two polynomials: \<open>padd\<close> adds two sequences, the shorter one
  continued by zeros.
\<close>

fun padd :: "vec \<Rightarrow> vec \<Rightarrow> vec" where
  "padd [] ys = ys"
| "padd xs [] = xs"
| "padd (x # xs) (y # ys) = (x + y) # padd xs ys"

fun conv_full :: "vec \<Rightarrow> vec \<Rightarrow> vec" where
  "conv_full [] K = []"
| "conv_full (x # xs) K = padd (map (\<lambda>k. x * k) K) (0 # conv_full xs K)"

text \<open>
  \<^verbatim>\<open>jax.scipy.signal.convolve(in1, in2, mode="full")\<close> on one-dimensional arrays:
  JAX refuses arrays of size zero with a \<^verbatim>\<open>ValueError\<close>; otherwise the result has
  \<open>length in1 + length in2 - 1\<close> entries.
\<close>

definition convolve :: "vec \<Rightarrow> vec \<Rightarrow> error + vec" where
  "convolve in1 in2 =
     (if in1 = [] \<or> in2 = [] then Inl ValueError else Inr (conv_full in1 in2))"

text \<open>\<^verbatim>\<open>np.pad(x, (before, after))\<close> with the default constant zero.\<close>

definition pad :: "vec \<Rightarrow> nat \<Rightarrow> nat \<Rightarrow> vec" where
  "pad x before after = replicate before 0 @ x @ replicate after 0"

text \<open>
  \<^verbatim>\<open>np.fft.rfft\<close> and \<^verbatim>\<open>np.fft.irfft\<close> on a non-empty array: the first
  \<open>n div 2 + 1\<close> bins of the discrete Fourier transform of \<open>n\<close> real samples, and
  the real signal of length \<open>2 (m - 1)\<close> that has the given \<open>m\<close> bins. What the
  library does with an empty array is not modelled; the statements about the FFT
  mode are for a non-empty input.
\<close>

definition rfft :: "vec \<Rightarrow> complex list" where
  "rfft x =
     map (\<lambda>k. \<Sum>j<length x. of_real (x ! j) * cis (- 2 * pi * real j * real k / real (length x)))
       [0..<length x div 2 + 1]"

definition irfft :: "complex list \<Rightarrow> vec" where
  "irfft X =
     (let m = length X; n = 2 * (m - 1) in
      map (\<lambda>j. (Re (X ! 0) +
                 (\<Sum>k = 1..<m - 1. 2 * Re (X ! k * cis (2 * pi * real j * real k / real n))) +
                 Re (X ! (m - 1)) * (- 1) ^ j) / real n)
        [0..<n])"

text \<open>
  \<^verbatim>\<open>
  def causal_convolution(u, K, nofft=False):
      if nofft:
          return convolve(u, K, mode="full")[: u.shape[0]]
      else:
          assert K.shape[0] == u.shape[0]
          ud = np.fft.rfft(np.pad(u, (0, K.shape[0])))
          Kd = np.fft.rfft(mp.pad(K, (0, u.shape[0])))
          out = ud * Kd
          return np.fft.irfft(out)[: u.shape[0]]
  \<close>
  The notebook binds no name \<^verbatim>\<open>mp\<close> (its imports are \<^verbatim>\<open>jax\<close>, \<^verbatim>\<open>np\<close>, \<^verbatim>\<open>nn\<close>,
  \<^verbatim>\<open>plt\<close>, \<^verbatim>\<open>seaborn\<close> and a few functions), so evaluating \<^verbatim>\<open>mp.pad\<close> raises
  \<^verbatim>\<open>NameError\<close>: \<open>mp_pad\<close> below. The lines after it are kept as the cell has
  them.
\<close>

definition mp_pad :: "vec \<Rightarrow> nat \<Rightarrow> nat \<Rightarrow> error + vec" where
  "mp_pad x before after = Inl NameError"

definition causal_convolution :: "vec \<Rightarrow> vec \<Rightarrow> bool \<Rightarrow> error + vec" where
  "causal_convolution u K nofft =
     (if nofft then
        (case convolve u K of
           Inl e \<Rightarrow> Inl e
         | Inr full \<Rightarrow> Inr (take (length u) full))
      else if length K \<noteq> length u then Inl AssertionError
      else
        (let ud = rfft (pad u 0 (length K)) in
         case mp_pad K 0 (length u) of
           Inl e \<Rightarrow> Inl e
         | Inr Kp \<Rightarrow>
             (let Kd = rfft Kp;
                  out = map2 (*) ud Kd
              in Inr (take (length u) (irfft out)))))"

text \<open>
  The causal prefix as the specification words it:
  \<open>y[n] = \<Sum>\<^bsub>m=0..n\<^esub> K[m] \<cdot> u[n-m]\<close>, a term counting as zero when \<open>m\<close> is past
  the end of \<open>K\<close> or \<open>n - m\<close> past the end of \<open>u\<close>.
\<close>

definition causal_sum :: "vec \<Rightarrow> vec \<Rightarrow> nat \<Rightarrow> real" where
  "causal_sum u K n =
     (\<Sum>m\<le>n. if m < length K \<and> n - m < length u then K ! m * u ! (n - m) else 0)"

text \<open>Reading a sequence as continued by zeros past its end.\<close>

definition nth0 :: "vec \<Rightarrow> nat \<Rightarrow> real" where
  "nth0 xs n = (if n < length xs then xs ! n else 0)"

section \<open>The equivalence test\<close>

text \<open>
  \<^verbatim>\<open>np.allclose(a, b)\<close> with the default tolerances \<^verbatim>\<open>rtol=1e-05\<close>,
  \<^verbatim>\<open>atol=1e-08\<close>, on arrays of the same length.
\<close>

definition allclose :: "vec \<Rightarrow> vec \<Rightarrow> bool" where
  "allclose a b \<longleftrightarrow>
     length a = length b \<and>
     list_all (\<lambda>(x, y). \<bar>x - y\<bar> \<le> 1 / 10 ^ 8 + 1 / 10 ^ 5 * \<bar>y\<bar>) (zip a b)"

text \<open>
  \<^verbatim>\<open>
  def test_cnn_is_rnn(N=4, L=16, step=1.0 / 16):
      ssm = random_SSM(rng, N)
      u = jax.random.uniform(rng, (L,))
      jax.random.split(rng, 3)
      # RNN
      rec = run_SSM(*ssm, u)
      # CNN
      ssmb = discretize(*ssm, step=step)
      conv = causal_convolution(u, K_conv(*ssmb, L))
      # Check
      assert np.allclose(rec.ravel(), conv.ravel())
  \<close>
  The random system and input are arguments of the model.
\<close>

definition test_cnn_is_rnn ::
  "(mat \<Rightarrow> error + mat) \<Rightarrow> mat \<Rightarrow> mat \<Rightarrow> mat \<Rightarrow> vec \<Rightarrow> real \<Rightarrow> error + unit" where
  "test_cnn_is_rnn inv_f A B C u step =
     (case run_SSM inv_f A B C u of
        Inl e \<Rightarrow> Inl e
      | Inr rec \<Rightarrow>
     (case discretize inv_f A B C step of
        Inl e \<Rightarrow> Inl e
      | Inr (Ab, Bb, Cb) \<Rightarrow>
     (case K_conv Ab Bb Cb (length u) of
        Inl e \<Rightarrow> Inl e
      | Inr K \<Rightarrow>
     (case causal_convolution u K False of
        Inl e \<Rightarrow> Inl e
      | Inr conv \<Rightarrow>
          if allclose (concat rec) conv then Inr () else Inl AssertionError))))"

section \<open>The HiPPO matrix\<close>

text \<open>\<^verbatim>\<open>np.arange(N)\<close>, \<^verbatim>\<open>np.tril(M)\<close> and \<^verbatim>\<open>np.diag(v)\<close>.\<close>

definition arange :: "nat \<Rightarrow> vec" where
  "arange N = map real [0..<N]"

definition tril :: "mat \<Rightarrow> mat" where
  "tril M = map (\<lambda>(i, r). map (\<lambda>(j, x). if j \<le> i then x else 0) (enumerate 0 r)) (enumerate 0 M)"

definition diag :: "vec \<Rightarrow> mat" where
  "diag v =
     map (\<lambda>i. map (\<lambda>j. if i = j then v ! i else 0) [0..<length v]) [0..<length v]"

text \<open>
  \<^verbatim>\<open>
  def make_HiPPO(N):
      P = np.sqrt(1 + 2 * np.arange(N))
      A = P[:, np.newaxis] * P[np.newaxis, :]
      A = np.tril(A) - np.diag(np.arange(N))
      return -A
  \<close>
\<close>

definition make_HiPPO :: "nat \<Rightarrow> mat" where
  "make_HiPPO N =
     (let P = map (\<lambda>x. sqrt (1 + 2 * x)) (arange N);
          A = map (\<lambda>p. map (\<lambda>q. p * q) P) P;
          A = msub (tril A) (diag (arange N))
      in mneg A)"

text \<open>The entry the specification gives: \<open>-(tril(M) - diag(0, \<dots>, N-1))[i, j]\<close>.\<close>

definition hippo_entry :: "nat \<Rightarrow> nat \<Rightarrow> real" where
  "hippo_entry i j =
     - ((if j \<le> i then sqrt (1 + 2 * real i) * sqrt (1 + 2 * real j) else 0) -
        (if i = j then real i else 0))"

section \<open>Matrices as lists of rows\<close>

lemma mat_length: "mat n m M \<Longrightarrow> length M = n"
  by (simp add: mat_def)

lemma mat_row_length: "mat n m M \<Longrightarrow> i < n \<Longrightarrow> length (M ! i) = m"
  by (simp add: mat_def list_all_length)

lemma matI: "length M = n \<Longrightarrow> (\<And>i. i < n \<Longrightarrow> length (M ! i) = m) \<Longrightarrow> mat n m M"
  by (simp add: mat_def list_all_length)

lemma mat_eqI:
  assumes "mat n m A" "mat n m B"
    and "\<And>i j. i < n \<Longrightarrow> j < m \<Longrightarrow> A ! i ! j = B ! i ! j"
  shows "A = B"
proof (rule nth_equalityI)
  show "length A = length B" using assms by (simp add: mat_length)
next
  fix i assume "i < length A"
  then have i: "i < n" using assms by (simp add: mat_length)
  show "A ! i = B ! i"
    by (rule nth_equalityI) (use assms i in \<open>simp_all add: mat_row_length\<close>)
qed

lemma dot_sum: "length x = length y \<Longrightarrow> dot x y = (\<Sum>k<length x. x ! k * y ! k)"
  unfolding dot_def
  by (simp add: sum_list_sum_nth atLeast0LessThan)

lemma ncols_mat: "mat n m M \<Longrightarrow> 0 < n \<Longrightarrow> ncols M = m"
  by (cases M) (simp_all add: mat_def ncols_def)

lemma length_matvec [simp]: "length (matvec M x) = length M"
  by (simp add: matvec_def)

lemma nth_matvec:
  "mat n m M \<Longrightarrow> length x = m \<Longrightarrow> i < n \<Longrightarrow> matvec M x ! i = (\<Sum>k<m. M ! i ! k * x ! k)"
  by (simp add: matvec_def mat_length mat_row_length dot_sum)

lemma length_col [simp]: "length (col M j) = length M"
  by (simp add: col_def)

lemma nth_col: "k < length M \<Longrightarrow> col M j ! k = M ! k ! j"
  by (simp add: col_def)

lemma mat_matmul: "mat n m A \<Longrightarrow> mat m p B \<Longrightarrow> 0 < m \<Longrightarrow> mat n p (matmul A B)"
  by (simp add: matmul_def mat_def list_all_length ncols_mat[unfolded mat_def])

lemma nth_matmul:
  assumes "mat n m A" "mat m p B" "0 < m" "i < n" "j < p"
  shows "matmul A B ! i ! j = (\<Sum>k<m. A ! i ! k * B ! k ! j)"
proof -
  have "matmul A B ! i ! j = dot (A ! i) (col B j)"
    using assms by (simp add: matmul_def mat_length ncols_mat)
  also have "\<dots> = (\<Sum>k<m. A ! i ! k * col B j ! k)"
    using assms by (simp add: dot_sum mat_length mat_row_length)
  also have "\<dots> = (\<Sum>k<m. A ! i ! k * B ! k ! j)"
    using assms by (intro sum.cong refl) (simp add: nth_col mat_length)
  finally show ?thesis .
qed

lemma matmul_assoc:
  assumes "mat n m A" "mat m p B" "mat p q C" "0 < m" "0 < p"
  shows "matmul (matmul A B) C = matmul A (matmul B C)"
proof (rule mat_eqI[of n q])
  show "mat n q (matmul (matmul A B) C)"
    using assms by (blast intro: mat_matmul)
  show "mat n q (matmul A (matmul B C))"
    using assms by (blast intro: mat_matmul)
next
  fix i j assume ij: "i < n" "j < q"
  have "matmul (matmul A B) C ! i ! j = (\<Sum>l<p. matmul A B ! i ! l * C ! l ! j)"
    using assms ij by (simp add: nth_matmul[of n p _ q] mat_matmul)
  also have "\<dots> = (\<Sum>l<p. (\<Sum>k<m. A ! i ! k * B ! k ! l) * C ! l ! j)"
    using assms ij by (intro sum.cong refl) (simp add: nth_matmul[of n m _ p])
  also have "\<dots> = (\<Sum>l<p. \<Sum>k<m. A ! i ! k * (B ! k ! l * C ! l ! j))"
    by (simp add: sum_distrib_right mult.assoc)
  also have "\<dots> = (\<Sum>k<m. \<Sum>l<p. A ! i ! k * (B ! k ! l * C ! l ! j))"
    by (rule sum.swap)
  also have "\<dots> = (\<Sum>k<m. A ! i ! k * (\<Sum>l<p. B ! k ! l * C ! l ! j))"
    by (simp add: sum_distrib_left)
  also have "\<dots> = (\<Sum>k<m. A ! i ! k * matmul B C ! k ! j)"
    using assms ij by (intro sum.cong refl) (simp add: nth_matmul[of m p _ q])
  also have "\<dots> = matmul A (matmul B C) ! i ! j"
    using assms ij by (simp add: nth_matmul[of n m _ q] mat_matmul)
  finally show "matmul (matmul A B) C ! i ! j = matmul A (matmul B C) ! i ! j" .
qed

lemma mat_eye: "mat n n (eye n)"
  by (simp add: eye_def mat_def list_all_length)

lemma nth_eye: "i < n \<Longrightarrow> j < n \<Longrightarrow> eye n ! i ! j = (if i = j then 1 else 0)"
  by (simp add: eye_def)

lemma matmul_eye_left:
  assumes "mat n m A" "0 < n"
  shows "matmul (eye n) A = A"
proof (rule mat_eqI[of n m])
  show "mat n m (matmul (eye n) A)" using assms by (blast intro: mat_matmul mat_eye)
  show "mat n m A" by fact
next
  fix i j assume ij: "i < n" "j < m"
  have "matmul (eye n) A ! i ! j = (\<Sum>k<n. (if i = k then 1 else 0) * A ! k ! j)"
    using assms ij by (simp add: nth_matmul[of n n _ m] mat_eye nth_eye)
  also have "\<dots> = (\<Sum>k<n. if k = i then A ! k ! j else 0)"
    by (intro sum.cong refl) simp
  also have "\<dots> = A ! i ! j"
    using ij by simp
  finally show "matmul (eye n) A ! i ! j = A ! i ! j" .
qed

lemma matmul_eye_right:
  assumes "mat n m A" "0 < m"
  shows "matmul A (eye m) = A"
proof (rule mat_eqI[of n m])
  show "mat n m (matmul A (eye m))" using assms by (blast intro: mat_matmul mat_eye)
  show "mat n m A" by fact
next
  fix i j assume ij: "i < n" "j < m"
  have "matmul A (eye m) ! i ! j = (\<Sum>k<m. A ! i ! k * (if k = j then 1 else 0))"
    using assms ij by (simp add: nth_matmul[of n m _ m] mat_eye nth_eye)
  also have "\<dots> = (\<Sum>k<m. if k = j then A ! i ! k else 0)"
    by (intro sum.cong refl) simp
  also have "\<dots> = A ! i ! j"
    using ij by simp
  finally show "matmul A (eye m) ! i ! j = A ! i ! j" .
qed

lemma mat_smult: "mat n m A \<Longrightarrow> mat n m (smult c A)"
  by (rule matI) (simp_all add: smult_def mat_length mat_row_length)

lemma nth_smult: "mat n m A \<Longrightarrow> i < n \<Longrightarrow> j < m \<Longrightarrow> smult c A ! i ! j = c * A ! i ! j"
  by (simp add: smult_def mat_length mat_row_length)

lemma mat_madd: "mat n m A \<Longrightarrow> mat n m B \<Longrightarrow> mat n m (madd A B)"
  by (rule matI) (simp_all add: madd_def mat_length mat_row_length)

lemma nth_madd:
  "mat n m A \<Longrightarrow> mat n m B \<Longrightarrow> i < n \<Longrightarrow> j < m \<Longrightarrow> madd A B ! i ! j = A ! i ! j + B ! i ! j"
  by (simp add: madd_def mat_length mat_row_length)

section \<open>Properties of the recurrence evaluator\<close>

lemma state_seq_Cons:
  "state_seq Ab Bb (a # u) x0 (Suc k) =
     state_seq Ab Bb u (vadd (matvec Ab x0) (matvec Bb a)) k"
  by (induction k) simp_all

lemma scan_SSM_unfold:
  "scan (scan_step Ab Bb Cb) x0 u =
     (state_seq Ab Bb u x0 (length u),
      map (\<lambda>k. matvec Cb (state_seq Ab Bb u x0 (Suc k))) [0..<length u])"
proof (induction u arbitrary: x0)
  case Nil
  show ?case by simp
next
  case (Cons a u)
  let ?x1 = "vadd (matvec Ab x0) (matvec Bb a)"
  have st: "scan_step Ab Bb Cb x0 a = (?x1, matvec Cb ?x1)"
    by (simp add: scan_step_def Let_def)
  have ix: "map (\<lambda>k. matvec Cb (state_seq Ab Bb (a # u) x0 (Suc k))) [0..<length (a # u)] =
      matvec Cb ?x1 # map (\<lambda>k. matvec Cb (state_seq Ab Bb u ?x1 (Suc k))) [0..<length u]"
  proof -
    have "[0..<length (a # u)] = 0 # map Suc [0..<length u]"
      by (simp add: upt_conv_Cons map_Suc_upt del: upt_Suc)
    then show ?thesis
      by (simp add: state_seq_Cons comp_def del: upt_Suc state_seq.simps(2))
  qed
  show ?case
    using Cons.IH[of ?x1] st ix
    by (simp add: state_seq_Cons del: upt_Suc state_seq.simps(2))
qed

text \<open>
  Claim C7. For matrices of consistent dimensions, every input sequence \<open>u\<close> and
  every initial state \<open>x0\<close>, \<open>scan_SSM\<close> returns the pair of the final state
  \<open>x\<^sub>L\<close> and the outputs \<open>y\<^sub>1, \<dots>, y\<^sub>L\<close> in input order, where \<open>x\<^sub>0 = x0\<close>,
  \<open>x\<^sub>k = Ab \<cdot> x\<^sub>k\<^sub>-\<^sub>1 + Bb \<cdot> u\<^sub>k\<close> and \<open>y\<^sub>k = Cb \<cdot> x\<^sub>k\<close>.
\<close>

theorem scan_SSM_recurrence:
  assumes "mat N N Ab" and "mat N p Bb" and "mat q N Cb"
    and "list_all (\<lambda>u_k. length u_k = p) u" and "length x0 = N"
  shows "scan_SSM Ab Bb Cb u x0 =
     (state_seq Ab Bb u x0 (length u),
      map (\<lambda>k. matvec Cb (state_seq Ab Bb u x0 (Suc k))) [0..<length u])"
  unfolding scan_SSM_def by (rule scan_SSM_unfold)

theorem scan_SSM_recurrence_witness:
  "mat 2 2 [[0, 1], [1, 1]] \<and> mat 2 1 [[1], [0]] \<and> mat 1 2 [[1, 2]] \<and>
   list_all (\<lambda>u_k. length u_k = 1) [[1], [2], [3]] \<and> length [0, 0 :: real] = 2 \<and>
   scan_SSM [[0, 1], [1, 1]] [[1], [0]] [[1, 2]] [[1], [2], [3]] [0, 0] =
     ([4, 3], [[1], [4], [10]])"
  using scan_SSM_recurrence[of 2 "[[0, 1], [1, 1]]" 1 "[[1], [0]]" 1 "[[1, 2]]"
      "[[1], [2], [3]]" "[0, 0]"]
  by (simp add: mat_def numeral_3_eq_3 matvec_def dot_def vadd_def)

section \<open>Properties of the kernel builder\<close>

lemma mat_matrix_power: "mat N N A \<Longrightarrow> 0 < N \<Longrightarrow> mat N N (matrix_power A l)"
  by (induction l) (auto simp: mat_length mat_eye intro: mat_matmul)

lemma reshape0_1_1: "mat 1 1 M \<Longrightarrow> reshape0 M = Inr (M ! 0 ! 0)"
  by (cases M; cases "hd M") (auto simp: mat_def reshape0_def)

lemma collect_map_Inr: "collect (map (\<lambda>x. Inr (f x)) xs) = Inr (map f xs)"
  by (induction xs) simp_all

lemma kernel_entry_matmul:
  assumes "0 < N" "mat N N Ab" "mat N 1 Bb" "mat 1 N Cb"
  shows "matmul (matmul Cb (matrix_power Ab l)) Bb ! 0 ! 0 = kernel_entry Ab Bb Cb l"
proof -
  let ?P = "matrix_power Ab l"
  have P: "mat N N ?P" using assms by (simp add: mat_matrix_power)
  have CP: "mat 1 N (matmul Cb ?P)" using assms P by (blast intro: mat_matmul)
  have "matmul (matmul Cb ?P) Bb ! 0 ! 0 = (\<Sum>j<N. matmul Cb ?P ! 0 ! j * Bb ! j ! 0)"
    using assms CP by (simp add: nth_matmul[of 1 N _ 1])
  also have "\<dots> = (\<Sum>j<N. (\<Sum>i<N. Cb ! 0 ! i * ?P ! i ! j) * Bb ! j ! 0)"
    using assms P by (intro sum.cong refl) (simp add: nth_matmul[of 1 N _ N])
  also have "\<dots> = (\<Sum>j<N. \<Sum>i<N. Cb ! 0 ! i * ?P ! i ! j * Bb ! j ! 0)"
    by (simp add: sum_distrib_right)
  also have "\<dots> = (\<Sum>i<N. \<Sum>j<N. Cb ! 0 ! i * ?P ! i ! j * Bb ! j ! 0)"
    by (rule sum.swap)
  finally show ?thesis
    using assms by (simp add: kernel_entry_def mat_length)
qed

lemma K_conv_entries:
  assumes "0 < N" and "mat N N Ab" and "mat N 1 Bb" and "mat 1 N Cb"
  shows "K_conv Ab Bb Cb L = Inr (map (kernel_entry Ab Bb Cb) [0..<L])"
proof -
  have "reshape0 (matmul (matmul Cb (matrix_power Ab l)) Bb) = Inr (kernel_entry Ab Bb Cb l)" for l
  proof -
    have "mat 1 1 (matmul (matmul Cb (matrix_power Ab l)) Bb)"
      using assms by (blast intro: mat_matmul mat_matrix_power)
    then show ?thesis
      using assms by (simp add: reshape0_1_1 kernel_entry_matmul)
  qed
  then show ?thesis
    by (simp add: K_conv_def collect_map_Inr)
qed

text \<open>
  Claim C4. For \<open>Ab\<close> of shape \<open>N \<times> N\<close>, \<open>Bb\<close> of shape \<open>N \<times> 1\<close>, \<open>Cb\<close> of shape
  \<open>1 \<times> N\<close> (with \<open>N \<ge> 1\<close>) and every \<open>L \<ge> 0\<close>, \<open>K_conv\<close> returns a kernel of length
  exactly \<open>L\<close> whose \<open>l\<close>-th entry is the scalar \<open>Cb \<cdot> Ab\<^sup>l \<cdot> Bb\<close>; for \<open>L = 0\<close> the
  kernel is empty.
\<close>

theorem K_conv_kernel:
  assumes "0 < N" and "mat N N Ab" and "mat N 1 Bb" and "mat 1 N Cb"
  shows "\<exists>K. K_conv Ab Bb Cb L = Inr K \<and> length K = L \<and>
           (\<forall>l<L. K ! l = kernel_entry Ab Bb Cb l) \<and> (L = 0 \<longrightarrow> K = [])"
  using K_conv_entries[OF assms, of L] by simp

theorem K_conv_kernel_witness:
  "(0::nat) < 2 \<and> mat 2 2 [[0, 1], [1, 1]] \<and> mat 2 1 [[1], [0]] \<and> mat 1 2 [[1, 2]] \<and>
   K_conv [[0, 1], [1, 1]] [[1], [0]] [[1, 2]] 3 = Inr [1, 2, 3] \<and>
   kernel_entry [[0, 1], [1, 1]] [[1], [0]] [[1, 2]] 2 = 3"
proof -
  have h: "(0::nat) < 2" "mat 2 2 [[0, 1], [1, 1]]" "mat 2 1 [[1], [0]]" "mat 1 2 [[1, 2]]"
    by (simp_all add: mat_def)
  have K: "K_conv [[0, 1], [1, 1]] [[1], [0]] [[1, 2]] 3 = Inr [1, 2, 3]"
    by (simp add: K_conv_def numeral_3_eq_3 matmul_def ncols_def col_def dot_def eye_def
        reshape0_def)
  from K_conv_kernel[OF h, of 3] K
  have "\<forall>l<3. [1, 2, 3] ! l = kernel_entry [[0, 1], [1, 1]] [[1], [0]] [[1, 2]] l"
    by auto
  then have "[1, 2, 3] ! 2 = kernel_entry [[0, 1], [1, 1]] [[1], [0]] [[1, 2]] 2"
    by (elim allE[of _ 2]) simp
  with h K show ?thesis by simp
qed

section \<open>Properties of the HiPPO matrix\<close>

lemma nth_msub:
  "mat n m A \<Longrightarrow> mat n m B \<Longrightarrow> i < n \<Longrightarrow> j < m \<Longrightarrow> msub A B ! i ! j = A ! i ! j - B ! i ! j"
  by (simp add: msub_def mat_length mat_row_length)

lemma mat_msub: "mat n m A \<Longrightarrow> mat n m B \<Longrightarrow> mat n m (msub A B)"
  by (rule matI) (simp_all add: msub_def mat_length mat_row_length)

lemma mat_mneg: "mat n m A \<Longrightarrow> mat n m (mneg A)"
  by (rule matI) (simp_all add: mneg_def mat_length mat_row_length)

lemma nth_mneg: "mat n m A \<Longrightarrow> i < n \<Longrightarrow> j < m \<Longrightarrow> mneg A ! i ! j = - (A ! i ! j)"
  by (simp add: mneg_def mat_length mat_row_length)

lemma mat_tril: "mat n m A \<Longrightarrow> mat n m (tril A)"
  by (rule matI) (simp_all add: tril_def mat_length mat_row_length nth_enumerate_eq)

lemma nth_tril:
  "mat n m A \<Longrightarrow> i < n \<Longrightarrow> j < m \<Longrightarrow> tril A ! i ! j = (if j \<le> i then A ! i ! j else 0)"
  by (simp add: tril_def mat_length mat_row_length nth_enumerate_eq)

lemma mat_diag: "mat (length v) (length v) (diag v)"
  by (rule matI) (simp_all add: diag_def)

lemma nth_diag:
  "i < length v \<Longrightarrow> j < length v \<Longrightarrow> diag v ! i ! j = (if i = j then v ! i else 0)"
  by (simp add: diag_def)

text \<open>
  Claim C8. \<open>make_HiPPO N\<close> is the \<open>N \<times> N\<close> matrix \<open>-(tril(M) - diag(0, \<dots>, N-1))\<close>
  with \<open>M[i,j] = P[i] \<cdot> P[j]\<close> and \<open>P[i] = sqrt (1 + 2 i)\<close>. The cell reads nothing
  but its argument, so the model is a function of \<open>N\<close> alone and two calls with
  the same \<open>N\<close> give the same matrix.
\<close>

theorem make_HiPPO_entries:
  "mat N N (make_HiPPO N) \<and> (\<forall>i<N. \<forall>j<N. make_HiPPO N ! i ! j = hippo_entry i j)"
proof -
  define P where "P = map (\<lambda>x. sqrt (1 + 2 * x)) (arange N)"
  define M where "M = map (\<lambda>p. map (\<lambda>q. p * q) P) P"
  have lenP: "length P = N" by (simp add: P_def arange_def)
  have P: "P ! i = sqrt (1 + 2 * real i)" if "i < N" for i
    using that by (simp add: P_def arange_def)
  have M: "mat N N M" by (rule matI) (simp_all add: M_def lenP)
  have Mij: "M ! i ! j = sqrt (1 + 2 * real i) * sqrt (1 + 2 * real j)" if "i < N" "j < N" for i j
    using that by (simp add: M_def lenP P)
  have D: "mat N N (diag (arange N))"
    using mat_diag[of "arange N"] by (simp add: arange_def)
  have Dij: "diag (arange N) ! i ! j = (if i = j then real i else 0)" if "i < N" "j < N" for i j
    using that by (simp add: nth_diag arange_def)
  have S: "mat N N (msub (tril M) (diag (arange N)))"
    using M D by (blast intro: mat_msub mat_tril)
  have eq: "make_HiPPO N = mneg (msub (tril M) (diag (arange N)))"
    by (simp add: make_HiPPO_def Let_def M_def P_def)
  have "make_HiPPO N ! i ! j = hippo_entry i j" if "i < N" "j < N" for i j
    using that M D S
    by (simp add: eq nth_mneg[of N N] nth_msub[of N N] nth_tril[of N N] mat_tril Mij Dij
        hippo_entry_def)
  moreover have "mat N N (make_HiPPO N)"
    using S by (simp add: eq mat_mneg)
  ultimately show ?thesis by blast
qed

theorem make_HiPPO_entries_witness:
  "make_HiPPO 3 = [[- 1, 0, 0], [- sqrt 3, - 2, 0], [- sqrt 5, - sqrt 15, - 3]] \<and>
   mat 3 3 (make_HiPPO 3) \<and> make_HiPPO 3 ! 2 ! 1 = hippo_entry 2 1 \<and>
   hippo_entry 2 1 = - sqrt 15"
proof -
  have e: "make_HiPPO 3 = [[- 1, 0, 0], [- sqrt 3, - 2, 0], [- sqrt 5, - sqrt 15, - 3]]"
    by (simp add: make_HiPPO_def arange_def tril_def diag_def msub_def mneg_def
        enumerate_eq_zip numeral_3_eq_3 flip: real_sqrt_mult)
  from make_HiPPO_entries[of 3]
  have m: "mat 3 3 (make_HiPPO 3)" and "\<forall>i<3. \<forall>j<3. make_HiPPO 3 ! i ! j = hippo_entry i j"
    by simp_all
  then have h: "make_HiPPO 3 ! 2 ! 1 = hippo_entry 2 1"
    by (elim allE[of _ 2] allE[of _ 1]) simp
  then have "hippo_entry 2 1 = - sqrt 15"
    by (simp add: e)
  with e m h show ?thesis by simp
qed

section \<open>Properties of the convolution evaluator\<close>

lemma length_padd: "length (padd xs ys) = max (length xs) (length ys)"
  by (induction xs ys rule: padd.induct) simp_all

lemma nth0_Nil [simp]: "nth0 [] n = 0"
  by (simp add: nth0_def)

lemma nth0_Cons_0 [simp]: "nth0 (x # xs) 0 = x"
  by (simp add: nth0_def)

lemma nth0_Cons_Suc [simp]: "nth0 (x # xs) (Suc n) = nth0 xs n"
  by (simp add: nth0_def)

lemma nth0_padd: "nth0 (padd xs ys) n = nth0 xs n + nth0 ys n"
proof (induction xs ys arbitrary: n rule: padd.induct)
  case (3 x xs y ys)
  then show ?case by (cases n) simp_all
qed simp_all

lemma nth0_map_mult: "nth0 (map (\<lambda>k. x * k) K) n = x * nth0 K n"
  by (simp add: nth0_def)

lemma length_conv_full:
  "K \<noteq> [] \<Longrightarrow> length (conv_full u K) = (if u = [] then 0 else length u + length K - 1)"
proof (induction u)
  case (Cons x xs)
  then show ?case by (cases K) (auto simp: length_padd)
qed simp

lemma causal_sum_nth0: "causal_sum u K n = (\<Sum>m\<le>n. nth0 K m * nth0 u (n - m))"
  unfolding causal_sum_def by (intro sum.cong refl) (simp add: nth0_def)

lemma causal_sum_Cons:
  "causal_sum (x # xs) K (Suc n) = x * nth0 K (Suc n) + causal_sum xs K n"
proof -
  have "causal_sum (x # xs) K (Suc n) =
      (\<Sum>m\<le>n. nth0 K m * nth0 (x # xs) (Suc n - m)) + nth0 K (Suc n) * nth0 (x # xs) 0"
    by (simp add: causal_sum_nth0)
  also have "(\<Sum>m\<le>n. nth0 K m * nth0 (x # xs) (Suc n - m)) = (\<Sum>m\<le>n. nth0 K m * nth0 xs (n - m))"
    by (intro sum.cong refl) (simp add: Suc_diff_le)
  finally show ?thesis by (simp add: causal_sum_nth0)
qed

text \<open>The polynomial product computes the convolution sum at every index.\<close>

lemma nth0_conv_full: "nth0 (conv_full u K) n = causal_sum u K n"
proof (induction u arbitrary: n)
  case Nil
  show ?case by (simp add: causal_sum_nth0)
next
  case (Cons x xs)
  show ?case
  proof (cases n)
    case 0
    then show ?thesis
      by (simp add: nth0_padd nth0_map_mult causal_sum_nth0)
  next
    case (Suc n')
    then show ?thesis
      by (simp add: nth0_padd nth0_map_mult Cons.IH causal_sum_Cons)
  qed
qed

lemma direct_mode_sum:
  assumes "u \<noteq> []" "K \<noteq> []"
  shows "causal_convolution u K True = Inr (map (causal_sum u K) [0..<length u])"
proof -
  have len: "length u \<le> length (conv_full u K)"
    using assms by (cases K) (simp_all add: length_conv_full)
  have "take (length u) (conv_full u K) = map (causal_sum u K) [0..<length u]"
  proof (rule nth_equalityI)
    show "length (take (length u) (conv_full u K)) = length (map (causal_sum u K) [0..<length u])"
      using len by simp
  next
    fix n assume "n < length (take (length u) (conv_full u K))"
    then have n: "n < length u" by simp
    then have "take (length u) (conv_full u K) ! n = nth0 (conv_full u K) n"
      using len by (simp add: nth0_def)
    then show "take (length u) (conv_full u K) ! n = map (causal_sum u K) [0..<length u] ! n"
      using n by (simp add: nth0_conv_full)
  qed
  then show ?thesis
    using assms by (simp add: causal_convolution_def convolve_def)
qed

text \<open>
  Without \<^verbatim>\<open>nofft\<close> the cell never returns: the assertion fails, or the
  unbound name \<^verbatim>\<open>mp\<close> is evaluated.
\<close>

lemma fft_mode_assertion:
  "length K \<noteq> length u \<Longrightarrow> causal_convolution u K False = Inl AssertionError"
  by (simp add: causal_convolution_def)

lemma fft_mode_NameError:
  "length K = length u \<Longrightarrow> u \<noteq> [] \<Longrightarrow> causal_convolution u K False = Inl NameError"
  by (simp add: causal_convolution_def mp_pad_def Let_def)

lemma fft_mode_never_returns: "u \<noteq> [] \<Longrightarrow> causal_convolution u K False \<noteq> Inr y"
  by (cases "length K = length u") (simp_all add: fft_mode_assertion fft_mode_NameError)

text \<open>
  Claim C10, as amended. In direct mode (\<^verbatim>\<open>nofft=True\<close>) there is no comparison
  of the two lengths: for every non-empty input \<open>u\<close> of length \<open>L\<close> and every
  non-empty kernel \<open>K\<close> of any length, \<open>causal_convolution\<close> returns the first \<open>L\<close>
  entries of the full convolution, \<open>y[n] = \<Sum>\<^bsub>m=0..n\<^esub> K[m] \<cdot> u[n-m]\<close> with the terms
  past the end of \<open>K\<close> or \<open>u\<close> counted as zero.
\<close>

theorem causal_convolution_direct:
  assumes "u \<noteq> []" and "K \<noteq> []"
  shows "causal_convolution u K True = Inr (map (causal_sum u K) [0..<length u])"
  using assms by (rule direct_mode_sum)

theorem causal_convolution_direct_witness:
  "[1, 2, 3 :: real] \<noteq> [] \<and> [1, 2 :: real] \<noteq> [] \<and>
   causal_convolution [1, 2, 3] [1, 2] True = Inr [1, 4, 7]"
proof -
  have "map (causal_sum [1, 2, 3] [1, 2]) [0..<length [1, 2, 3 :: real]] = [1, 4, 7]"
    by (simp add: causal_sum_def numeral_2_eq_2)
  with causal_convolution_direct[of "[1, 2, 3]" "[1, 2]"] show ?thesis
    by simp
qed

text \<open>
  Claim C10 as stated, for a kernel of any length, fails at the empty kernel: the
  library's convolution refuses an array of size zero, where the claim promises
  the output \<open>[0]\<close>.
\<close>

theorem causal_convolution_direct_counterexample:
  "causal_convolution [1] [] True = Inl ValueError \<and>
   map (causal_sum [1] []) [0..<length [1 :: real]] = [0]"
  by (simp add: causal_convolution_def convolve_def causal_sum_def)

text \<open>
  Claim C5, as amended. With \<^verbatim>\<open>nofft=False\<close>, unequal lengths of \<open>K\<close> and \<open>u\<close>
  fail the assertion (an \<^verbatim>\<open>AssertionError\<close>), before anything is computed. With
  \<^verbatim>\<open>nofft=True\<close> the lengths are not compared: for non-empty \<open>u\<close> and \<open>K\<close> of any
  lengths the call returns an output as long as \<open>u\<close>.
\<close>

theorem causal_convolution_shape_check:
  "(length K \<noteq> length u \<longrightarrow> causal_convolution u K False = Inl AssertionError) \<and>
   (u \<noteq> [] \<and> K \<noteq> [] \<longrightarrow>
      (\<exists>y. causal_convolution u K True = Inr y \<and> length y = length u))"
  by (simp add: fft_mode_assertion direct_mode_sum)

theorem causal_convolution_shape_check_witness:
  "length [3, 4 :: real] \<noteq> length [1, 2, 5 :: real] \<and>
   [1, 2, 5 :: real] \<noteq> [] \<and> [3, 4 :: real] \<noteq> [] \<and>
   causal_convolution [1, 2, 5] [3, 4] False = Inl AssertionError \<and>
   (\<exists>y. causal_convolution [1, 2, 5] [3, 4] True = Inr y \<and> length y = 3)"
  using causal_convolution_shape_check[of "[3, 4]" "[1, 2, 5]"]
  by (simp add: numeral_3_eq_3)

text \<open>
  Claim C5 as stated, a shape error in both modes whenever the lengths differ,
  fails in direct mode: a kernel of length one is applied to an input of length
  two.
\<close>

theorem causal_convolution_shape_counterexample:
  "length [1 :: real] \<noteq> length [1, 2 :: real] \<and>
   causal_convolution [1, 2] [1] True = Inr [1, 2]"
  by (simp add: causal_convolution_def convolve_def)

text \<open>
  Claim C6: the FFT mode and the direct mode agree on inputs of equal length.
  The notebook's FFT mode raises \<^verbatim>\<open>NameError\<close> where the direct mode returns the
  convolution, here for the input \<open>[1]\<close> and the kernel \<open>[1]\<close>.
\<close>

theorem causal_convolution_fft_mode_fails:
  "causal_convolution [1] [1] False = Inl NameError \<and>
   causal_convolution [1] [1] True = Inr [1]"
  by (simp add: causal_convolution_def convolve_def mp_pad_def)

section \<open>Properties of the discretizer\<close>

lemma is_inverse_unique:
  assumes "is_inverse M X" "is_inverse M Y" "0 < length M"
  shows "X = Y"
proof -
  let ?n = "length M"
  from assms have m: "mat ?n ?n M" "mat ?n ?n X" "mat ?n ?n Y"
    and e: "matmul X M = eye ?n" "matmul M Y = eye ?n"
    by (simp_all add: is_inverse_def)
  have "matmul (matmul X M) Y = matmul X (matmul M Y)"
    using m assms(3) by (intro matmul_assoc[of ?n ?n X ?n M ?n Y])
  then have "matmul (eye ?n) Y = matmul X (eye ?n)"
    by (simp only: e)
  then show ?thesis
    using m assms(3) by (simp add: matmul_eye_left[of ?n ?n] matmul_eye_right[of ?n ?n])
qed

lemma dot_scale_left: "dot (map (\<lambda>x. x * c) r) y = c * dot r y"
  unfolding dot_def
proof (induction r arbitrary: y)
  case (Cons a r)
  then show ?case by (cases y) (simp_all add: algebra_simps)
qed simp

text \<open>The code scales \<open>BL\<close> before the product, the specification after it.\<close>

lemma matmul_mscale: "matmul (mscale BL c) B = smult c (matmul BL B)"
  by (simp add: matmul_def mscale_def smult_def dot_scale_left comp_def)

lemma discretize_Inr:
  "inv_f (msub (eye (length A)) (smult (step / 2) A)) = Inr BL \<Longrightarrow>
   discretize inv_f A B C step =
     Inr (matmul BL (madd (eye (length A)) (smult (step / 2) A)), smult step (matmul BL B), C)"
  by (simp add: discretize_def Let_def matmul_mscale)

subsection \<open>The instance on two-by-two matrices\<close>

lemma mat_2_2: "mat 2 2 M \<Longrightarrow> \<exists>a b c d. M = [[a, b], [c, d]]"
  by (auto simp: mat_def numeral_2_eq_2 length_Suc_conv)

lemma matmul_2x2:
  "matmul [[p, q], [r, s]] [[a, b], [c, d]] =
     [[p * a + q * c, p * b + q * d], [r * a + s * c, r * b + s * d]]"
  by (simp add: matmul_def ncols_def col_def dot_def)

lemma eye_2: "eye 2 = [[1, 0], [0, 1]]"
  by (simp add: eye_def numeral_2_eq_2)

lemma inv_2x2_correct: "inv_correct 2 inv_2x2"
  unfolding inv_correct_def
proof (intro allI impI)
  fix M X assume h: "length M = 2 \<and> is_inverse M X"
  then have l: "length M = 2" and i: "is_inverse M X" by simp_all
  from i have mm: "mat 2 2 M" "mat 2 2 X" "matmul X M = eye 2" "matmul M X = eye 2"
    unfolding is_inverse_def l by simp_all
  obtain a b c d where M: "M = [[a, b], [c, d]]"
    using mat_2_2[OF mm(1)] by blast
  obtain p q r s where X: "X = [[p, q], [r, s]]"
    using mat_2_2[OF mm(2)] by blast
  from mm have eqs: "p * a + q * c = 1" "p * b + q * d = 0" "r * a + s * c = 0" "r * b + s * d = 1"
    "a * p + b * r = 1" "a * q + b * s = 0" "c * p + d * r = 0" "c * q + d * s = 1"
    by (simp_all add: M X matmul_2x2 eye_2)
  define D where "D = a * d - b * c"
  have "(p * s - q * r) * D = (p * a + q * c) * (r * b + s * d) - (p * b + q * d) * (r * a + s * c)"
    by (simp add: D_def algebra_simps)
  then have "(p * s - q * r) * D = 1" by (simp add: eqs)
  then have D0: "D \<noteq> 0" by auto
  have "D * p = d * (a * p + b * r) - b * (c * p + d * r)"
    by (simp add: D_def algebra_simps)
  then have p: "D * p = d" by (simp add: eqs)
  have "D * q = d * (a * q + b * s) - b * (c * q + d * s)"
    by (simp add: D_def algebra_simps)
  then have q: "D * q = - b" by (simp add: eqs)
  have "D * r = a * (c * p + d * r) - c * (a * p + b * r)"
    by (simp add: D_def algebra_simps)
  then have r: "D * r = - c" by (simp add: eqs)
  have "D * s = a * (c * q + d * s) - c * (a * q + b * s)"
    by (simp add: D_def algebra_simps)
  then have s: "D * s = a" by (simp add: eqs)
  have "p = d / D" "q = - b / D" "r = - c / D" "s = a / D"
    using D0 p q r s by (simp_all add: field_simps)
  then show "inv_2x2 M = Inr X"
    by (simp add: M X smult_def D_def)
qed


lemma example_mass_40_5_1:
  "example_mass 40 5 1 = Inr ([[0, 1], [- 40, - 5]], [[0], [1]], [[1, 0]])"
  by (simp add: example_mass_def)

text \<open>
  Claim C2. For \<open>A\<close> of shape \<open>N \<times> N\<close>, \<open>B\<close> of shape \<open>N \<times> 1\<close>, \<open>C\<close> of shape
  \<open>1 \<times> N\<close> and \<open>step > 0\<close> such that \<open>I - step/2 \<cdot> A\<close> is invertible, \<open>discretize\<close>
  returns exactly \<open>(BL \<cdot> (I + step/2 \<cdot> A), step \<cdot> BL \<cdot> B, C)\<close> where \<open>BL\<close> is the
  inverse of \<open>I - step/2 \<cdot> A\<close>, given a library inverse that meets its contract.
  The model is a function of its arguments, so there is no other effect.
\<close>

theorem discretize_bilinear:
  assumes "0 < N" and "mat N N A" and "mat N 1 B" and "mat 1 N C" and "0 < step"
    and "inv_correct N inv_f"
    and "invertible (msub (eye N) (smult (step / 2) A))"
  shows "\<exists>BL. is_inverse (msub (eye N) (smult (step / 2) A)) BL \<and>
           discretize inv_f A B C step =
             Inr (matmul BL (madd (eye N) (smult (step / 2) A)), smult step (matmul BL B), C)"
proof -
  let ?M = "msub (eye N) (smult (step / 2) A)"
  from assms(7) obtain BL where BL: "is_inverse ?M BL"
    by (auto simp: invertible_def)
  have "length ?M = N"
    using assms(2) by (simp add: msub_def eye_def smult_def mat_length)
  with BL assms(6) have "inv_f ?M = Inr BL"
    by (auto simp: inv_correct_def)
  then have "discretize inv_f A B C step =
      Inr (matmul BL (madd (eye N) (smult (step / 2) A)), smult step (matmul BL B), C)"
    using discretize_Inr[of inv_f A step BL B C] assms(2) by (simp add: mat_length)
  with BL show ?thesis by blast
qed

theorem discretize_bilinear_witness:
  "(0::nat) < 2 \<and> mat 2 2 [[0, 1], [- 40, - 5]] \<and> mat 2 1 [[0], [1]] \<and> mat 1 2 [[1, 0]] \<and>
   (0::real) < 1 / 2 \<and> inv_correct 2 inv_2x2 \<and>
   invertible (msub (eye 2) (smult ((1 / 2) / 2) [[0, 1], [- 40, - 5]])) \<and>
   (\<exists>BL. is_inverse (msub (eye 2) (smult ((1 / 2) / 2) [[0, 1], [- 40, - 5]])) BL \<and>
      discretize inv_2x2 [[0, 1], [- 40, - 5]] [[0], [1]] [[1, 0]] (1 / 2) =
        Inr (matmul BL (madd (eye 2) (smult ((1 / 2) / 2) [[0, 1], [- 40, - 5]])),
             smult (1 / 2) (matmul BL [[0], [1]]), [[1, 0]])) \<and>
   discretize inv_2x2 [[0, 1], [- 40, - 5]] [[0], [1]] [[1, 0]] (1 / 2) =
     Inr ([[- 1 / 19, 2 / 19], [- 80 / 19, - 11 / 19]], [[1 / 38], [2 / 19]], [[1, 0]])"
proof -
  have h: "(0::nat) < 2" "mat 2 2 [[0, 1], [- 40, - 5]]" "mat 2 1 [[0], [1]]" "mat 1 2 [[1, 0]]"
    "(0::real) < 1 / 2"
    by (simp_all add: mat_def)
  have "is_inverse (msub (eye 2) (smult ((1 / 2) / 2) [[0, 1], [- 40, - 5]]))
      [[9 / 19, 1 / 19], [- 40 / 19, 4 / 19]]"
    by (simp add: is_inverse_def msub_def smult_def eye_2 matmul_2x2 mat_def
        flip: numeral_2_eq_2)
  then have i: "invertible (msub (eye 2) (smult ((1 / 2) / 2) [[0, 1], [- 40, - 5]]))"
    unfolding invertible_def by blast
  have v: "discretize inv_2x2 [[0, 1], [- 40, - 5]] [[0], [1]] [[1, 0]] (1 / 2) =
      Inr ([[- 1 / 19, 2 / 19], [- 80 / 19, - 11 / 19]], [[1 / 38], [2 / 19]], [[1, 0]])"
    by (simp add: discretize_def Let_def eye_def msub_def smult_def madd_def mscale_def
        matmul_def ncols_def col_def dot_def numeral_2_eq_2)
  from discretize_bilinear[OF h inv_2x2_correct i] h inv_2x2_correct i v
  show ?thesis by blast
qed

subsection \<open>Singular matrices\<close>

text \<open>
  Where the library inverse returns finite arrays only, the model with the
  non-finite floats in view is the model over the real numbers.
\<close>

lemma discretize_nf_finite:
  "discretize_nf (\<lambda>M. map_sum id Some (inv_f M)) A B C step =
     map_sum id (\<lambda>(Ab, Bb, Cb). (Some Ab, Some Bb, Cb)) (discretize inv_f A B C step)"
  by (simp add: discretize_nf_def discretize_def Let_def split: sum.splits)








section \<open>Properties of the equivalence test\<close>

text \<open>The test cannot pass: its convolution side raises on every input.\<close>

lemma test_cnn_is_rnn_never_passes: "test_cnn_is_rnn inv_f A B C u step \<noteq> Inr ()"
proof (cases "u = []")
  case True
  then show ?thesis
    by (simp add: test_cnn_is_rnn_def run_SSM_def)
next
  case False
  then show ?thesis
    by (simp add: test_cnn_is_rnn_def fft_mode_never_returns split: sum.splits prod.splits)
qed

text \<open>
  Claim C1: the recurrence on the discretized system and the causal convolution
  with its kernel give the same outputs. In the notebook the convolution side,
  \<^verbatim>\<open>causal_convolution(u, K_conv(*ssmb, L))\<close>, raises \<^verbatim>\<open>NameError\<close>; here for the
  mass-spring system \<^verbatim>\<open>example_mass(40, 5, 1)\<close>, the input \<open>[1, 2]\<close> and the step
  \<open>1/2\<close>, where the recurrence side returns.
\<close>

theorem test_cnn_is_rnn_raises:
  "example_mass 40 5 1 = Inr ([[0, 1], [- 40, - 5]], [[0], [1]], [[1, 0]]) \<and>
   run_SSM inv_2x2 [[0, 1], [- 40, - 5]] [[0], [1]] [[1, 0]] [1, 2] = Inr [[1 / 38], [45 / 722]] \<and>
   test_cnn_is_rnn inv_2x2 [[0, 1], [- 40, - 5]] [[0], [1]] [[1, 0]] [1, 2] (1 / 2) =
     Inl NameError"
  by (simp add: example_mass_def test_cnn_is_rnn_def run_SSM_def discretize_def Let_def
      eye_def msub_def smult_def madd_def mscale_def matmul_def ncols_def col_def dot_def
      numeral_2_eq_2 K_conv_def reshape0_def fft_mode_NameError scan_SSM_def scan_step_def
      matvec_def vadd_def zeros_def)

section \<open>The recurrence agrees with the direct convolution\<close>


lemma nth_vadd: "i < length x \<Longrightarrow> i < length y \<Longrightarrow> vadd x y ! i = x ! i + y ! i"
  by (simp add: vadd_def)

lemma length_vadd: "length (vadd x y) = min (length x) (length y)"
  by (simp add: vadd_def)

lemma matrix_power_commute:
  assumes "mat N N A" "0 < N"
  shows "matmul A (matrix_power A m) = matmul (matrix_power A m) A"
proof (induction m)
  case 0
  show ?case using assms by (simp add: mat_length matmul_eye_left matmul_eye_right)
next
  case (Suc m)
  have P: "mat N N (matrix_power A m)" using assms by (rule mat_matrix_power)
  have "matmul A (matrix_power A (Suc m)) = matmul (matmul A (matrix_power A m)) A"
    using assms P by (simp add: matmul_assoc[of N N A N _ N A])
  then show ?case by (simp add: Suc.IH)
qed

text \<open>The impulse response column \<open>Ab\<^sup>m \<cdot> Bb\<close>.\<close>

lemma impulse_step:
  assumes "0 < N" "mat N N Ab" "mat N 1 Bb" "i < N"
  shows "(\<Sum>l<N. Ab ! i ! l * matmul (matrix_power Ab m) Bb ! l ! 0) =
         matmul (matrix_power Ab (Suc m)) Bb ! i ! 0"
proof -
  let ?P = "matrix_power Ab m"
  have P: "mat N N ?P" using assms by (simp add: mat_matrix_power)
  have V: "mat N 1 (matmul ?P Bb)" using assms P by (blast intro: mat_matmul)
  have "(\<Sum>l<N. Ab ! i ! l * matmul ?P Bb ! l ! 0) = matmul Ab (matmul ?P Bb) ! i ! 0"
    using assms V by (simp add: nth_matmul[of N N Ab 1])
  also have "matmul Ab (matmul ?P Bb) = matmul (matmul Ab ?P) Bb"
    using assms P by (simp add: matmul_assoc[of N N Ab N ?P 1 Bb])
  also have "matmul Ab ?P = matrix_power Ab (Suc m)"
    using assms by (simp add: matrix_power_commute)
  finally show ?thesis .
qed

lemma kernel_entry_impulse:
  assumes "0 < N" "mat N N Ab" "mat N 1 Bb"
  shows "kernel_entry Ab Bb Cb m = (\<Sum>i<N. Cb ! 0 ! i * matmul (matrix_power Ab m) Bb ! i ! 0)"
proof -
  have P: "mat N N (matrix_power Ab m)" using assms by (simp add: mat_matrix_power)
  have "(\<Sum>j<N. Cb ! 0 ! i * matrix_power Ab m ! i ! j * Bb ! j ! 0) =
        Cb ! 0 ! i * matmul (matrix_power Ab m) Bb ! i ! 0" if "i < N" for i
    using assms P that by (simp add: nth_matmul[of N N _ 1] sum_distrib_left mult.assoc)
  then show ?thesis
    using assms by (simp add: kernel_entry_def mat_length)
qed

lemma length_state_seq:
  assumes "mat N N Ab" "mat N p Bb" "length x0 = N"
  shows "length (state_seq Ab Bb u x0 k) = N"
  using assms by (cases k) (simp_all add: length_vadd mat_length)

lemma state_seq_zero:
  assumes "0 < N" "mat N N Ab" "mat N 1 Bb" "k \<le> length u" "i < N"
  shows "state_seq Ab Bb (map (\<lambda>x. [x]) u) (zeros N) k ! i =
         (\<Sum>j<k. matmul (matrix_power Ab (k - 1 - j)) Bb ! i ! 0 * u ! j)"
  using assms(4,5)
proof (induction k arbitrary: i)
  case 0
  then show ?case by (simp add: zeros_def)
next
  case (Suc k)
  let ?U = "map (\<lambda>x. [x]) u"
  let ?X = "state_seq Ab Bb ?U (zeros N) k"
  let ?V = "\<lambda>m. matmul (matrix_power Ab m) Bb"
  have lenX: "length ?X = N"
    using assms by (intro length_state_seq) (simp_all add: zeros_def)
  have k: "k < length u" "k \<le> length u" using Suc.prems by simp_all
  have V0: "matmul (eye (length Ab)) Bb = Bb"
    using assms by (simp add: mat_length matmul_eye_left)
  have "state_seq Ab Bb ?U (zeros N) (Suc k) ! i =
        matvec Ab ?X ! i + matvec Bb (?U ! k) ! i"
    using assms Suc.prems by (simp add: nth_vadd mat_length)
  also have "matvec Ab ?X ! i = (\<Sum>l<N. Ab ! i ! l * ?X ! l)"
    using assms Suc.prems lenX by (simp add: nth_matvec[of N N])
  also have "\<dots> = (\<Sum>l<N. Ab ! i ! l * (\<Sum>j<k. ?V (k - 1 - j) ! l ! 0 * u ! j))"
    using k by (intro sum.cong refl) (simp add: Suc.IH)
  also have "\<dots> = (\<Sum>l<N. \<Sum>j<k. Ab ! i ! l * ?V (k - 1 - j) ! l ! 0 * u ! j)"
    by (simp add: sum_distrib_left mult.assoc)
  also have "\<dots> = (\<Sum>j<k. \<Sum>l<N. Ab ! i ! l * ?V (k - 1 - j) ! l ! 0 * u ! j)"
    by (rule sum.swap)
  also have "\<dots> = (\<Sum>j<k. (\<Sum>l<N. Ab ! i ! l * ?V (k - 1 - j) ! l ! 0) * u ! j)"
    by (simp add: sum_distrib_right)
  also have "\<dots> = (\<Sum>j<k. ?V (Suc (k - 1 - j)) ! i ! 0 * u ! j)"
    using assms Suc.prems by (simp add: impulse_step[of N])
  also have "\<dots> = (\<Sum>j<k. ?V (Suc k - 1 - j) ! i ! 0 * u ! j)"
    by (intro sum.cong refl) (simp add: Suc_diff_Suc)
  also have "matvec Bb (?U ! k) ! i = ?V (Suc k - 1 - k) ! i ! 0 * u ! k"
    using assms Suc.prems k by (simp add: nth_matvec[of N 1] V0)
  finally show ?case by simp
qed

lemma scan_output_causal_sum:
  assumes "0 < N" "mat N N Ab" "mat N 1 Bb" "mat 1 N Cb" "n < length u"
  shows "matvec Cb (state_seq Ab Bb (map (\<lambda>x. [x]) u) (zeros N) (Suc n)) =
         [causal_sum u (map (kernel_entry Ab Bb Cb) [0..<length u]) n]"
proof -
  let ?X = "state_seq Ab Bb (map (\<lambda>x. [x]) u) (zeros N) (Suc n)"
  let ?V = "\<lambda>m. matmul (matrix_power Ab m) Bb"
  let ?K = "map (kernel_entry Ab Bb Cb) [0..<length u]"
  have lenX: "length ?X = N"
    using assms by (intro length_state_seq) (simp_all add: zeros_def)
  have X: "?X ! i = (\<Sum>j\<le>n. ?V (n - j) ! i ! 0 * u ! j)" if "i < N" for i
    using state_seq_zero[of N Ab Bb "Suc n" u i] assms that
    by (simp add: lessThan_Suc_atMost del: sum.lessThan_Suc state_seq.simps)
  have "matvec Cb ?X ! 0 = (\<Sum>i<N. Cb ! 0 ! i * ?X ! i)"
    using assms lenX by (simp add: nth_matvec[of 1 N])
  also have "\<dots> = (\<Sum>i<N. Cb ! 0 ! i * (\<Sum>j\<le>n. ?V (n - j) ! i ! 0 * u ! j))"
    by (intro sum.cong refl) (simp add: X del: state_seq.simps)
  also have "\<dots> = (\<Sum>i<N. \<Sum>j\<le>n. Cb ! 0 ! i * ?V (n - j) ! i ! 0 * u ! j)"
    by (simp add: sum_distrib_left mult.assoc)
  also have "\<dots> = (\<Sum>j\<le>n. \<Sum>i<N. Cb ! 0 ! i * ?V (n - j) ! i ! 0 * u ! j)"
    by (rule sum.swap)
  also have "\<dots> = (\<Sum>j\<le>n. kernel_entry Ab Bb Cb (n - j) * u ! j)"
    using assms by (simp add: kernel_entry_impulse[of N] sum_distrib_right)
  also have "\<dots> = (\<Sum>m\<le>n. kernel_entry Ab Bb Cb m * u ! (n - m))"
    by (rule sum.reindex_bij_witness[where i = "\<lambda>m. n - m" and j = "\<lambda>j. n - j"]) auto
  also have "\<dots> = causal_sum u ?K n"
    unfolding causal_sum_def using assms(5) by (intro sum.cong refl) auto
  finally have "matvec Cb ?X ! 0 = causal_sum u ?K n" .
  moreover have "length (matvec Cb ?X) = 1"
    using assms by (simp add: mat_length)
  ultimately show ?thesis
    by (cases "matvec Cb ?X") (simp_all del: state_seq.simps)
qed


lemma concat_map_singleton: "concat (map (\<lambda>k. [f k]) xs) = map f xs"
  by (induction xs) simp_all

text \<open>
  With the direct mode in place of the FFT mode, the two sides of the notebook's
  test agree exactly: the outputs of the recurrence from the zero state are the
  causal convolution of the input with the kernel of \<open>K_conv\<close>.
\<close>

lemma recurrence_is_direct_convolution:
  assumes "0 < N" "mat N N Ab" "mat N 1 Bb" "mat 1 N Cb" "u \<noteq> []"
  shows "\<exists>K. K_conv Ab Bb Cb (length u) = Inr K \<and>
           causal_convolution u K True =
             Inr (concat (snd (scan_SSM Ab Bb Cb (map (\<lambda>x. [x]) u) (zeros N))))"
proof -
  let ?K = "map (kernel_entry Ab Bb Cb) [0..<length u]"
  let ?U = "map (\<lambda>x. [x]) u"
  have K: "K_conv Ab Bb Cb (length u) = Inr ?K"
    using assms by (simp add: K_conv_entries[of N])
  have "?K \<noteq> []" using assms(5) by simp
  then have c: "causal_convolution u ?K True = Inr (map (causal_sum u ?K) [0..<length u])"
    using assms(5) by (rule direct_mode_sum[rotated])
  have "snd (scan_SSM Ab Bb Cb ?U (zeros N)) =
      map (\<lambda>k. matvec Cb (state_seq Ab Bb ?U (zeros N) (Suc k))) [0..<length u]"
    by (simp add: scan_SSM_def scan_SSM_unfold del: state_seq.simps)
  also have "\<dots> = map (\<lambda>k. [causal_sum u ?K k]) [0..<length u]"
    using assms by (intro map_cong refl) (simp add: scan_output_causal_sum[of N] del: state_seq.simps)
  finally have "concat (snd (scan_SSM Ab Bb Cb ?U (zeros N))) = map (causal_sum u ?K) [0..<length u]"
    by (simp add: concat_map_singleton)
  with K c show ?thesis by auto
qed

section \<open>The discretized transition matrix for small steps\<close>

lemma foldr_max_ge: "x \<in> set xs \<Longrightarrow> \<bar>x\<bar> \<le> foldr (\<lambda>x m. max \<bar>x\<bar> m) xs (0::real)"
  by (induction xs) auto

lemma foldr_max_less:
  "foldr (\<lambda>x m. max \<bar>x\<bar> m) xs (0::real) < e \<longleftrightarrow> 0 < e \<and> (\<forall>x\<in>set xs. \<bar>x\<bar> < e)"
  by (induction xs) auto

lemma entry_in_concat: "mat n m M \<Longrightarrow> i < n \<Longrightarrow> j < m \<Longrightarrow> M ! i ! j \<in> set (concat M)"
  by (auto simp: mat_def list_all_length intro!: bexI[of _ "M ! i"])

lemma entry_le_norm_max: "mat n m M \<Longrightarrow> i < n \<Longrightarrow> j < m \<Longrightarrow> \<bar>M ! i ! j\<bar> \<le> norm_max M"
  unfolding norm_max_def by (rule foldr_max_ge) (rule entry_in_concat)

lemma norm_max_less:
  assumes "mat n m M" "0 < e" "\<And>i j. i < n \<Longrightarrow> j < m \<Longrightarrow> \<bar>M ! i ! j\<bar> < e"
  shows "norm_max M < e"
proof -
  have "\<bar>x\<bar> < e" if "x \<in> set (concat M)" for x
  proof -
    from that obtain r where r: "r \<in> set M" "x \<in> set r" by auto
    then obtain i where i: "i < length M" "r = M ! i" by (auto simp: in_set_conv_nth)
    from r i obtain j where j: "j < length (M ! i)" "x = M ! i ! j" by (auto simp: in_set_conv_nth)
    with i assms(1) have "i < n" "j < m" by (simp_all add: mat_length mat_row_length)
    with assms(3) j show ?thesis by simp
  qed
  then show ?thesis
    using assms(2) by (simp add: norm_max_def foldr_max_less)
qed

lemma foldr_max_nonneg: "0 \<le> foldr (\<lambda>x m. max \<bar>x\<bar> m) xs (0::real)"
  by (induction xs) auto

lemma norm_max_nonneg: "0 \<le> norm_max M"
  unfolding norm_max_def by (rule foldr_max_nonneg)

lemma power_entry_bound:
  assumes "0 < N" "mat N N A" "\<And>i j. i < N \<Longrightarrow> j < N \<Longrightarrow> \<bar>A ! i ! j\<bar> \<le> a" "i < N" "j < N"
  shows "\<bar>matrix_power A k ! i ! j\<bar> \<le> (real N * a) ^ k"
  using assms(4,5)
proof (induction k arbitrary: i j)
  case 0
  then show ?case using assms(2) by (simp add: mat_length nth_eye)
next
  case (Suc k)
  let ?P = "matrix_power A k"
  have P: "mat N N ?P" using assms by (simp add: mat_matrix_power)
  have a0: "0 \<le> a" using assms(3)[of 0 0] assms(1) by simp
  have "\<bar>matrix_power A (Suc k) ! i ! j\<bar> = \<bar>\<Sum>l<N. ?P ! i ! l * A ! l ! j\<bar>"
    using assms P Suc.prems by (simp add: nth_matmul[of N N _ N])
  also have "\<dots> \<le> (\<Sum>l<N. \<bar>?P ! i ! l * A ! l ! j\<bar>)"
    by (rule sum_abs)
  also have "\<dots> \<le> (\<Sum>l<N. (real N * a) ^ k * a)"
  proof (rule sum_mono)
    fix l assume "l \<in> {..<N}"
    then have l: "l < N" by simp
    have "\<bar>?P ! i ! l\<bar> * \<bar>A ! l ! j\<bar> \<le> (real N * a) ^ k * a"
      using Suc.IH[of i l] assms(3)[of l j] Suc.prems l a0
      by (intro mult_mono) simp_all
    then show "\<bar>?P ! i ! l * A ! l ! j\<bar> \<le> (real N * a) ^ k * a"
      by (simp add: abs_mult)
  qed
  also have "\<dots> = (real N * a) ^ Suc k"
    by simp
  finally show ?case .
qed


text \<open>
  For a small factor \<open>h\<close> the series \<open>\<Sum>\<^sub>k h\<^sup>k A\<^sup>k\<close> converges entrywise and is the
  inverse of \<open>I - h A\<close>, with entries bounded by \<open>1 / (1 - h N a)\<close> when \<open>a\<close> bounds
  the entries of \<open>A\<close>.
\<close>

lemma neumann_term_bound:
  assumes "0 < N" "mat N N A" "\<And>i j. i < N \<Longrightarrow> j < N \<Longrightarrow> \<bar>A ! i ! j\<bar> \<le> a"
    and "0 \<le> h" "i < N" "j < N"
  shows "\<bar>h ^ k * matrix_power A k ! i ! j\<bar> \<le> (h * (real N * a)) ^ k"
proof -
  have "\<bar>h ^ k * matrix_power A k ! i ! j\<bar> = h ^ k * \<bar>matrix_power A k ! i ! j\<bar>"
    using assms(4) by (simp add: abs_mult)
  also have "\<dots> \<le> h ^ k * (real N * a) ^ k"
    using assms by (intro mult_left_mono power_entry_bound) simp_all
  finally show ?thesis by (simp add: power_mult_distrib)
qed

lemma neumann_summable:
  assumes "0 < N" "mat N N A" "\<And>i j. i < N \<Longrightarrow> j < N \<Longrightarrow> \<bar>A ! i ! j\<bar> \<le> a"
    and "0 \<le> h" "h * (real N * a) < 1" "i < N" "j < N"
  shows "summable (\<lambda>k. h ^ k * matrix_power A k ! i ! j)"
proof (rule summable_comparison_test)
  have a0: "0 \<le> a" using assms(3)[of 0 0] assms(1) by simp
  then have "0 \<le> h * (real N * a)" using assms(4) by simp
  then show "summable (\<lambda>k. (h * (real N * a)) ^ k)"
    using assms(5) by (intro summable_geometric) simp
  show "\<exists>n0. \<forall>k\<ge>n0. norm (h ^ k * matrix_power A k ! i ! j) \<le> (h * (real N * a)) ^ k"
    using neumann_term_bound[OF assms(1-4) assms(6,7)] by auto
qed

lemma neumann_bound:
  assumes "0 < N" "mat N N A" "\<And>i j. i < N \<Longrightarrow> j < N \<Longrightarrow> \<bar>A ! i ! j\<bar> \<le> a"
    and "0 \<le> h" "h * (real N * a) < 1" "i < N" "j < N"
  shows "\<bar>\<Sum>k. h ^ k * matrix_power A k ! i ! j\<bar> \<le> 1 / (1 - h * (real N * a))"
proof -
  let ?f = "\<lambda>k. h ^ k * matrix_power A k ! i ! j"
  let ?q = "h * (real N * a)"
  have a0: "0 \<le> a" using assms(3)[of 0 0] assms(1) by simp
  then have q0: "0 \<le> ?q" using assms(4) by simp
  have sg: "summable (\<lambda>k. ?q ^ k)"
    using q0 assms(5) by (intro summable_geometric) simp
  have sa: "summable (\<lambda>k. \<bar>?f k\<bar>)"
  proof (rule summable_comparison_test)
    show "summable (\<lambda>k. ?q ^ k)" by (rule sg)
    show "\<exists>n0. \<forall>k\<ge>n0. norm \<bar>?f k\<bar> \<le> ?q ^ k"
      using neumann_term_bound[OF assms(1-4) assms(6,7)] by auto
  qed
  have "\<bar>suminf ?f\<bar> \<le> (\<Sum>k. \<bar>?f k\<bar>)"
    by (rule summable_rabs[OF sa])
  also have "\<dots> \<le> (\<Sum>k. ?q ^ k)"
    using neumann_term_bound[OF assms(1-4) assms(6,7)] by (intro suminf_le sa sg) auto
  also have "\<dots> = 1 / (1 - ?q)"
    using q0 assms(5) by (intro suminf_geometric) simp
  finally show ?thesis .
qed


lemma neumann_shift_summable:
  assumes "0 < N" "mat N N A" "\<And>i j. i < N \<Longrightarrow> j < N \<Longrightarrow> \<bar>A ! i ! j\<bar> \<le> a"
    and "0 \<le> h" "h * (real N * a) < 1" "i < N" "j < N"
  shows "summable (\<lambda>k. h ^ k * matrix_power A (Suc k) ! i ! j)"
proof (rule summable_comparison_test)
  let ?q = "h * (real N * a)"
  have a0: "0 \<le> a" using assms(3)[of 0 0] assms(1) by simp
  then have q0: "0 \<le> ?q" using assms(4) by simp
  have "summable (\<lambda>k. ?q ^ k)"
    using q0 assms(5) by (intro summable_geometric) simp
  then show "summable (\<lambda>k. (real N * a) * ?q ^ k)"
    by (rule summable_mult)
  have "norm (h ^ k * matrix_power A (Suc k) ! i ! j) \<le> (real N * a) * ?q ^ k" for k
  proof -
    have "\<bar>h ^ k * matrix_power A (Suc k) ! i ! j\<bar> = h ^ k * \<bar>matrix_power A (Suc k) ! i ! j\<bar>"
      using assms(4) by (simp add: abs_mult del: matrix_power.simps)
    also have "\<dots> \<le> h ^ k * (real N * a) ^ Suc k"
      using assms by (intro mult_left_mono power_entry_bound) simp_all
    also have "\<dots> = (real N * a) * ?q ^ k"
      by (simp add: power_mult_distrib)
    finally show ?thesis by (simp del: matrix_power.simps)
  qed
  then show "\<exists>n0. \<forall>k\<ge>n0. norm (h ^ k * matrix_power A (Suc k) ! i ! j) \<le> (real N * a) * ?q ^ k"
    by blast
qed

lemma neumann_shift:
  assumes "0 < N" "mat N N A" "\<And>i j. i < N \<Longrightarrow> j < N \<Longrightarrow> \<bar>A ! i ! j\<bar> \<le> a"
    and "0 \<le> h" "h * (real N * a) < 1" "i < N" "j < N"
  shows "h * (\<Sum>k. h ^ k * matrix_power A (Suc k) ! i ! j) =
         (\<Sum>k. h ^ k * matrix_power A k ! i ! j) - (if i = j then 1 else 0)"
proof -
  let ?f = "\<lambda>k. h ^ k * matrix_power A k ! i ! j"
  let ?g = "\<lambda>k. h ^ k * matrix_power A (Suc k) ! i ! j"
  have sf: "summable ?f" using assms by (rule neumann_summable)
  have sg: "summable ?g" using assms by (rule neumann_shift_summable)
  have "h * suminf ?g = (\<Sum>k. h * ?g k)"
    using sg by (rule suminf_mult[symmetric])
  also have "\<dots> = (\<Sum>k. ?f (Suc k))"
    by (simp add: mult.assoc)
  also have "\<dots> = suminf ?f - ?f 0"
    using sf by (rule suminf_split_head)
  also have "?f 0 = (if i = j then 1 else 0)"
    using assms by (simp add: mat_length nth_eye)
  finally show ?thesis .
qed

lemma sum_delta_right: "(j::nat) < N \<Longrightarrow> (\<Sum>l<N. f l * (if l = j then 1 else 0 :: real)) = f j"
proof -
  assume j: "j < N"
  have "(\<Sum>l<N. f l * (if l = j then 1 else 0)) = (\<Sum>l<N. if l = j then f l else 0)"
    by (intro sum.cong refl) simp
  also have "\<dots> = f j"
    using j by simp
  finally show ?thesis .
qed

lemma sum_delta_left: "(i::nat) < N \<Longrightarrow> (\<Sum>l<N. (if i = l then 1 else 0 :: real) * f l) = f i"
proof -
  assume i: "i < N"
  have "(\<Sum>l<N. (if i = l then 1 else 0) * f l) = (\<Sum>l<N. if l = i then f l else 0)"
    by (intro sum.cong refl) simp
  also have "\<dots> = f i"
    using i by simp
  finally show ?thesis .
qed

lemma neumann_inverse:
  assumes "0 < N" "mat N N A" "\<And>i j. i < N \<Longrightarrow> j < N \<Longrightarrow> \<bar>A ! i ! j\<bar> \<le> a"
    and "0 \<le> h" "h * (real N * a) < 1"
  shows "\<exists>X. is_inverse (msub (eye N) (smult h A)) X \<and>
           (\<forall>i<N. \<forall>j<N. \<bar>X ! i ! j\<bar> \<le> 1 / (1 - h * (real N * a)))"
proof -
  let ?M = "msub (eye N) (smult h A)"
  let ?P = "matrix_power A"
  define S where "S i j = (\<Sum>k. h ^ k * ?P k ! i ! j)" for i j
  define X where "X = map (\<lambda>i. map (\<lambda>j. S i j) [0..<N]) [0..<N]"
  have hA: "mat N N (smult h A)" using assms(2) by (rule mat_smult)
  have M: "mat N N ?M" using hA by (intro mat_msub mat_eye)
  have Mij: "?M ! i ! j = (if i = j then 1 else 0) - h * A ! i ! j" if "i < N" "j < N" for i j
    using that assms(2) hA by (simp add: nth_msub[of N N] mat_eye nth_eye nth_smult[of N N])
  have X: "mat N N X" by (rule matI) (simp_all add: X_def)
  have Xij: "X ! i ! j = S i j" if "i < N" "j < N" for i j
    using that by (simp add: X_def)
  have P: "mat N N (?P k)" for k using assms by (simp add: mat_matrix_power)
  have sm: "summable (\<lambda>k. h ^ k * ?P k ! i ! j)" if "i < N" "j < N" for i j
    using assms that by (rule neumann_summable)
  have shift: "h * (\<Sum>k. h ^ k * ?P (Suc k) ! i ! j) = S i j - (if i = j then 1 else 0)"
    if "i < N" "j < N" for i j
    unfolding S_def using assms that by (rule neumann_shift)
  have SA: "(\<Sum>l<N. S i l * A ! l ! j) = (\<Sum>k. h ^ k * ?P (Suc k) ! i ! j)"
    if ij: "i < N" "j < N" for i j
  proof -
    have "(\<Sum>l<N. S i l * A ! l ! j) = (\<Sum>l<N. \<Sum>k. h ^ k * ?P k ! i ! l * A ! l ! j)"
      unfolding S_def using ij by (intro sum.cong refl suminf_mult2) (simp add: sm)
    also have "\<dots> = (\<Sum>k. \<Sum>l<N. h ^ k * ?P k ! i ! l * A ! l ! j)"
      using ij by (intro suminf_sum[symmetric] summable_mult2) (simp add: sm)
    also have "\<dots> = (\<Sum>k. h ^ k * (\<Sum>l<N. ?P k ! i ! l * A ! l ! j))"
      by (simp add: sum_distrib_left mult.assoc)
    also have "\<dots> = (\<Sum>k. h ^ k * ?P (Suc k) ! i ! j)"
      using ij assms P by (simp add: nth_matmul[of N N _ N])
    finally show ?thesis .
  qed
  have AS: "(\<Sum>l<N. A ! i ! l * S l j) = (\<Sum>k. h ^ k * ?P (Suc k) ! i ! j)"
    if ij: "i < N" "j < N" for i j
  proof -
    have "(\<Sum>l<N. A ! i ! l * S l j) = (\<Sum>l<N. \<Sum>k. A ! i ! l * (h ^ k * ?P k ! l ! j))"
      unfolding S_def using ij by (intro sum.cong refl suminf_mult[symmetric]) (simp add: sm)
    also have "\<dots> = (\<Sum>k. \<Sum>l<N. A ! i ! l * (h ^ k * ?P k ! l ! j))"
      using ij by (intro suminf_sum[symmetric] summable_mult) (simp add: sm)
    also have "\<dots> = (\<Sum>k. h ^ k * (\<Sum>l<N. A ! i ! l * ?P k ! l ! j))"
      by (simp add: sum_distrib_left mult.left_commute)
    also have "\<dots> = (\<Sum>k. h ^ k * matmul A (?P k) ! i ! j)"
      using ij assms P by (simp add: nth_matmul[of N N _ N])
    also have "\<dots> = (\<Sum>k. h ^ k * ?P (Suc k) ! i ! j)"
      using assms by (simp add: matrix_power_commute[of N])
    finally show ?thesis .
  qed
  have XM: "matmul X ?M = eye N"
  proof (rule mat_eqI[of N N])
    show "mat N N (matmul X ?M)" using X M assms(1) by (rule mat_matmul)
    show "mat N N (eye N)" by (rule mat_eye)
  next
    fix i j assume ij: "i < N" "j < N"
    have "matmul X ?M ! i ! j = (\<Sum>l<N. S i l * ((if l = j then 1 else 0) - h * A ! l ! j))"
      using X M assms(1) ij by (simp add: nth_matmul[of N N _ N] Xij Mij)
    also have "\<dots> = (\<Sum>l<N. S i l * (if l = j then 1 else 0)) - h * (\<Sum>l<N. S i l * A ! l ! j)"
      by (simp add: right_diff_distrib sum_subtractf sum_distrib_left mult.left_commute)
    also have "\<dots> = S i j - h * (\<Sum>k. h ^ k * ?P (Suc k) ! i ! j)"
      using ij by (simp only: sum_delta_right SA)
    also have "\<dots> = (if i = j then 1 else 0)"
      using ij shift[of i j] by (simp del: matrix_power.simps)
    finally show "matmul X ?M ! i ! j = eye N ! i ! j"
      using ij by (simp add: nth_eye)
  qed
  have MX: "matmul ?M X = eye N"
  proof (rule mat_eqI[of N N])
    show "mat N N (matmul ?M X)" using M X assms(1) by (rule mat_matmul)
    show "mat N N (eye N)" by (rule mat_eye)
  next
    fix i j assume ij: "i < N" "j < N"
    have "matmul ?M X ! i ! j = (\<Sum>l<N. ((if i = l then 1 else 0) - h * A ! i ! l) * S l j)"
      using X M assms(1) ij by (simp add: nth_matmul[of N N _ N] Xij Mij)
    also have "\<dots> = (\<Sum>l<N. (if i = l then 1 else 0) * S l j) - h * (\<Sum>l<N. A ! i ! l * S l j)"
      by (simp add: left_diff_distrib sum_subtractf sum_distrib_left mult.assoc)
    also have "\<dots> = S i j - h * (\<Sum>k. h ^ k * ?P (Suc k) ! i ! j)"
      using ij by (simp only: sum_delta_left AS)
    also have "\<dots> = (if i = j then 1 else 0)"
      using ij shift[of i j] by (simp del: matrix_power.simps)
    finally show "matmul ?M X ! i ! j = eye N ! i ! j"
      using ij by (simp add: nth_eye)
  qed
  have lenM: "length ?M = N" using M by (rule mat_length)
  have "is_inverse ?M X"
    unfolding is_inverse_def lenM using M X XM MX by simp
  moreover have "\<bar>X ! i ! j\<bar> \<le> 1 / (1 - h * (real N * a))" if "i < N" "j < N" for i j
    using neumann_bound[OF assms that] that by (simp add: Xij S_def)
  ultimately show ?thesis by blast
qed


lemma discretize_Ab_minus_eye:
  assumes "0 < N" "mat N N A" "mat N N X" "matmul X (msub (eye N) (smult h A)) = eye N"
    and "i < N" "j < N"
  shows "matmul X (madd (eye N) (smult h A)) ! i ! j - eye N ! i ! j =
         2 * h * (\<Sum>l<N. X ! i ! l * A ! l ! j)"
proof -
  have hA: "mat N N (smult h A)" using assms(2) by (rule mat_smult)
  have M: "mat N N (msub (eye N) (smult h A))" using hA by (intro mat_msub mat_eye)
  have P: "mat N N (madd (eye N) (smult h A))" using hA by (intro mat_madd mat_eye)
  have "matmul X (madd (eye N) (smult h A)) ! i ! j =
        (\<Sum>l<N. X ! i ! l * ((if l = j then 1 else 0) + h * A ! l ! j))"
    using assms P hA
    by (simp add: nth_matmul[of N N _ N] nth_madd[of N N] mat_eye nth_eye nth_smult[of N N])
  also have "\<dots> = X ! i ! j + h * (\<Sum>l<N. X ! i ! l * A ! l ! j)"
    using assms(6)
    by (simp add: distrib_left sum.distrib sum_delta_right sum_distrib_left mult.left_commute)
  finally have 1: "matmul X (madd (eye N) (smult h A)) ! i ! j =
      X ! i ! j + h * (\<Sum>l<N. X ! i ! l * A ! l ! j)" .
  have "eye N ! i ! j = matmul X (msub (eye N) (smult h A)) ! i ! j"
    by (simp add: assms(4))
  also have "\<dots> = (\<Sum>l<N. X ! i ! l * ((if l = j then 1 else 0) - h * A ! l ! j))"
    using assms(1-3,5,6) M hA
    by (simp add: nth_matmul[of N N _ N] nth_msub[of N N] mat_eye nth_eye nth_smult[of N N])
  also have "\<dots> = X ! i ! j - h * (\<Sum>l<N. X ! i ! l * A ! l ! j)"
    using assms(6)
    by (simp add: right_diff_distrib sum_subtractf sum_delta_right sum_distrib_left
        mult.left_commute)
  finally have 2: "eye N ! i ! j = X ! i ! j - h * (\<Sum>l<N. X ! i ! l * A ! l ! j)" .
  show ?thesis
    unfolding 1 2 by simp
qed

text \<open>
  Claim C9. For every fixed \<open>A\<close> and every \<open>\<epsilon> > 0\<close> there is a \<open>\<delta> > 0\<close> such that for
  every step with \<open>0 < step < \<delta>\<close> the call returns, and the \<open>Ab\<close> it returns is an
  \<open>N \<times> N\<close> matrix with \<open>\<parallel>Ab - I\<parallel> < \<epsilon>\<close> in the maximum norm, that is, with every
  entry within \<open>\<epsilon>\<close> of the identity's; the library inverse is assumed to meet its
  contract. That \<open>I - step/2 \<cdot> A\<close> is invertible for such steps is part of the
  proof, not an assumption.
\<close>

theorem discretize_identity_limit:
  assumes "0 < N" and "mat N N A" and "mat N 1 B" and "mat 1 N C"
    and "inv_correct N inv_f" and "0 < \<epsilon>"
  shows "\<exists>\<delta>>0. \<forall>step. 0 < step \<and> step < \<delta> \<longrightarrow>
           (\<exists>Ab Bb Cb. discretize inv_f A B C step = Inr (Ab, Bb, Cb) \<and>
              mat N N Ab \<and> norm_max (msub Ab (eye N)) < \<epsilon> \<and>
              (\<forall>i<N. \<forall>j<N. \<bar>Ab ! i ! j - eye N ! i ! j\<bar> < \<epsilon>))"
proof -
  define a where "a = norm_max A"
  define c where "c = real N * a"
  define \<delta> where "\<delta> = min (1 / (c + 1)) (\<epsilon> / (2 * (c + 1)))"
  have a0: "0 \<le> a" unfolding a_def by (rule norm_max_nonneg)
  have c0: "0 \<le> c" unfolding c_def using a0 by simp
  have ent: "\<bar>A ! i ! j\<bar> \<le> a" if "i < N" "j < N" for i j
    unfolding a_def using assms(2) that by (rule entry_le_norm_max)
  have \<delta>0: "0 < \<delta>"
    unfolding \<delta>_def using c0 assms(6) by simp
  have "\<exists>Ab Bb Cb. discretize inv_f A B C step = Inr (Ab, Bb, Cb) \<and>
          mat N N Ab \<and> norm_max (msub Ab (eye N)) < \<epsilon> \<and>
          (\<forall>i<N. \<forall>j<N. \<bar>Ab ! i ! j - eye N ! i ! j\<bar> < \<epsilon>)"
    if step: "0 < step" "step < \<delta>" for step
  proof -
    define h where "h = step / 2"
    let ?M = "msub (eye N) (smult h A)"
    have s1: "step * (c + 1) < 1" and s2: "2 * (step * (c + 1)) < \<epsilon>"
      using step c0 unfolding \<delta>_def by (simp_all add: field_simps)
    have "step * c \<le> step * (c + 1)"
      using step by (simp add: algebra_simps)
    then have sc: "step * c < 1" "2 * (step * c) < \<epsilon>"
      using s1 s2 by linarith+
    have h0: "0 \<le> h" using step by (simp add: h_def)
    have hc: "h * (real N * a) < 1 / 2"
      using sc(1) by (simp add: h_def c_def)
    then have hc1: "h * (real N * a) < 1" by simp
    from neumann_inverse[OF assms(1,2) ent h0 hc1]
    obtain X where X: "is_inverse ?M X"
      and Xb: "\<And>i j. i < N \<Longrightarrow> j < N \<Longrightarrow> \<bar>X ! i ! j\<bar> \<le> 1 / (1 - h * (real N * a))"
      by blast
    have lenM: "length ?M = N"
      using assms(2) by (simp add: msub_def eye_def smult_def mat_length)
    from X have mX: "mat N N X" and XM: "matmul X ?M = eye N"
      unfolding is_inverse_def lenM by simp_all
    have X2: "\<bar>X ! i ! j\<bar> \<le> 2" if "i < N" "j < N" for i j
    proof -
      have "1 / (1 - h * (real N * a)) \<le> 2"
        using hc by (simp add: field_simps)
      with Xb[OF that] show ?thesis by linarith
    qed
    have "inv_f ?M = Inr X"
      using assms(5) X lenM by (auto simp: inv_correct_def)
    then have "inv_f (msub (eye (length A)) (smult (step / 2) A)) = Inr X"
      using assms(2) by (simp add: h_def mat_length)
    with discretize_Inr[of inv_f A step X B C]
    have d: "discretize inv_f A B C step =
        Inr (matmul X (madd (eye N) (smult h A)), smult step (matmul X B), C)"
      using assms(2) by (simp add: h_def mat_length)
    let ?Ab = "matmul X (madd (eye N) (smult h A))"
    have "mat N N (madd (eye N) (smult h A))"
      by (intro mat_madd mat_eye mat_smult assms(2))
    with mX have mAb: "mat N N ?Ab"
      using assms(1) by (rule mat_matmul)
    have ent_lt: "\<bar>msub ?Ab (eye N) ! i ! j\<bar> < \<epsilon>" if ij: "i < N" "j < N" for i j
    proof -
      have "msub ?Ab (eye N) ! i ! j = 2 * h * (\<Sum>l<N. X ! i ! l * A ! l ! j)"
        using mAb ij discretize_Ab_minus_eye[OF assms(1,2) mX XM ij]
        by (simp add: nth_msub[of N N] mat_eye)
      also have "\<bar>\<dots>\<bar> = step * \<bar>\<Sum>l<N. X ! i ! l * A ! l ! j\<bar>"
        using step by (simp add: h_def abs_mult)
      also have "\<bar>\<Sum>l<N. X ! i ! l * A ! l ! j\<bar> \<le> (\<Sum>l<N. \<bar>X ! i ! l * A ! l ! j\<bar>)"
        by (rule sum_abs)
      also have "\<dots> \<le> (\<Sum>l<N. 2 * a)"
      proof (rule sum_mono)
        fix l assume "l \<in> {..<N}"
        then have l: "l < N" by simp
        have "\<bar>X ! i ! l\<bar> * \<bar>A ! l ! j\<bar> \<le> 2 * a"
          using X2[OF ij(1) l] ent[OF l ij(2)] by (intro mult_mono) simp_all
        then show "\<bar>X ! i ! l * A ! l ! j\<bar> \<le> 2 * a" by (simp add: abs_mult)
      qed
      also have "\<dots> = 2 * c" by (simp add: c_def)
      finally have "\<bar>msub ?Ab (eye N) ! i ! j\<bar> \<le> step * (2 * c)"
        using step by simp
      with sc(2) show ?thesis by simp
    qed
    then have nm: "norm_max (msub ?Ab (eye N)) < \<epsilon>"
      using mAb assms(6) by (intro norm_max_less[of N N] mat_msub mat_eye)
    have "\<bar>?Ab ! i ! j - eye N ! i ! j\<bar> < \<epsilon>" if ij: "i < N" "j < N" for i j
      using ent_lt[OF ij] mAb ij by (simp add: nth_msub[of N N] mat_eye)
    with d mAb nm show ?thesis by blast
  qed
  with \<delta>0 show ?thesis by blast
qed

theorem discretize_identity_limit_witness:
  "(0::nat) < 2 \<and> mat 2 2 [[0, 1], [- 40, - 5]] \<and> mat 2 1 [[0], [1]] \<and> mat 1 2 [[1, 0]] \<and>
   inv_correct 2 inv_2x2 \<and> (0::real) < 1 \<and>
   (\<exists>\<delta>>0. \<forall>step. 0 < step \<and> step < \<delta> \<longrightarrow>
      (\<exists>Ab Bb Cb. discretize inv_2x2 [[0, 1], [- 40, - 5]] [[0], [1]] [[1, 0]] step =
           Inr (Ab, Bb, Cb) \<and>
         mat 2 2 Ab \<and> norm_max (msub Ab (eye 2)) < 1 \<and>
         (\<forall>i<2. \<forall>j<2. \<bar>Ab ! i ! j - eye 2 ! i ! j\<bar> < 1)))"
proof -
  have h: "(0::nat) < 2" "mat 2 2 [[0, 1], [- 40, - 5]]" "mat 2 1 [[0], [1]]" "mat 1 2 [[1, 0]]"
    by (simp_all add: mat_def)
  have e: "(0::real) < 1" by simp
  from discretize_identity_limit[OF h inv_2x2_correct e] h inv_2x2_correct e
  show ?thesis by blast
qed

end
